theory Spec2Isabelle
  imports Main "HOL-Library.Word"
begin

unbundle bit_operations_syntax

section \<open>The WebSocket reader of \<^verbatim>\<open>aiohttp/_websocket/reader_py.py\<close>\<close>

text \<open>
  The reader is a Python class with mutable fields. It is embedded as a record that
  every method takes and returns. A raised exception is the \<open>Inl\<close> side of a sum and
  carries the reader as the raise left it, since the caller (\<open>feed_data\<close>) goes on
  using the same object.
\<close>

subsection \<open>Bytes, strings and the helpers imported by the module\<close>

type_synonym byte = "8 word"
type_synonym bytes = "byte list"

text \<open>A Python \<open>str\<close> is a sequence of Unicode code points.\<close>

type_synonym str = "nat list"

text \<open>
  Python's built-in \<open>bytes.decode("utf-8")\<close> in strict mode: the well-formed byte
  sequences of the Unicode standard (no overlong forms, no surrogates, nothing above
  U+10FFFF). \<open>None\<close> stands for \<open>UnicodeDecodeError\<close>.
\<close>

definition is_cont :: "byte \<Rightarrow> bool" where
  "is_cont b \<longleftrightarrow> 0x80 \<le> unat b \<and> unat b \<le> 0xBF"

definition in_range :: "nat \<Rightarrow> nat \<Rightarrow> byte \<Rightarrow> bool" where
  "in_range lo hi b \<longleftrightarrow> lo \<le> unat b \<and> unat b \<le> hi"

definition low6 :: "byte \<Rightarrow> nat" where
  "low6 b = unat b AND 0x3F"

fun utf8_decode :: "bytes \<Rightarrow> str option" where
  "utf8_decode [] = Some []"
| "utf8_decode [b0] =
     (if unat b0 < 0x80 then Some [unat b0] else None)"
| "utf8_decode [b0, b1] =
     (if unat b0 < 0x80 then map_option ((#) (unat b0)) (utf8_decode [b1])
      else if in_range 0xC2 0xDF b0 \<and> is_cont b1
        then Some [(unat b0 AND 0x1F) * 64 + low6 b1]
      else None)"
| "utf8_decode [b0, b1, b2] =
     (if unat b0 < 0x80 then map_option ((#) (unat b0)) (utf8_decode [b1, b2])
      else if in_range 0xC2 0xDF b0 \<and> is_cont b1
        then map_option ((#) ((unat b0 AND 0x1F) * 64 + low6 b1)) (utf8_decode [b2])
      else if (unat b0 = 0xE0 \<and> in_range 0xA0 0xBF b1
               \<or> (in_range 0xE1 0xEC b0 \<or> in_range 0xEE 0xEF b0) \<and> is_cont b1
               \<or> unat b0 = 0xED \<and> in_range 0x80 0x9F b1) \<and> is_cont b2
        then Some [(unat b0 AND 0x0F) * 4096 + low6 b1 * 64 + low6 b2]
      else None)"
| "utf8_decode (b0 # b1 # b2 # b3 # bs) =
     (if unat b0 < 0x80 then map_option ((#) (unat b0)) (utf8_decode (b1 # b2 # b3 # bs))
      else if in_range 0xC2 0xDF b0 \<and> is_cont b1
        then map_option ((#) ((unat b0 AND 0x1F) * 64 + low6 b1)) (utf8_decode (b2 # b3 # bs))
      else if (unat b0 = 0xE0 \<and> in_range 0xA0 0xBF b1
               \<or> (in_range 0xE1 0xEC b0 \<or> in_range 0xEE 0xEF b0) \<and> is_cont b1
               \<or> unat b0 = 0xED \<and> in_range 0x80 0x9F b1) \<and> is_cont b2
        then map_option ((#) ((unat b0 AND 0x0F) * 4096 + low6 b1 * 64 + low6 b2))
               (utf8_decode (b3 # bs))
      else if (unat b0 = 0xF0 \<and> in_range 0x90 0xBF b1
               \<or> in_range 0xF1 0xF3 b0 \<and> is_cont b1
               \<or> unat b0 = 0xF4 \<and> in_range 0x80 0x8F b1) \<and> is_cont b2 \<and> is_cont b3
        then map_option
               ((#) ((unat b0 AND 0x07) * 262144 + low6 b1 * 4096 + low6 b2 * 64 + low6 b3))
               (utf8_decode bs)
      else None)"

text \<open>
  Modelled from the spec: \<open>UNPACK_CLOSE_CODE\<close> and \<open>UNPACK_LEN3\<close> of
  \<open>_websocket/helpers.py\<close>, which is not among the sources. The spec reads the close
  code as a big-endian u16 and the 8-byte extended length as an unsigned big-endian
  64-bit number. Both are the big-endian value of the bytes they are given.
\<close>

definition unpack_be :: "bytes \<Rightarrow> nat" where
  "unpack_be bs = foldl (\<lambda>acc b. acc * 256 + unat b) 0 bs"

definition UNPACK_CLOSE_CODE :: "bytes \<Rightarrow> nat" where
  "UNPACK_CLOSE_CODE bs = unpack_be bs"

definition UNPACK_LEN3 :: "bytes \<Rightarrow> nat" where
  "UNPACK_LEN3 bs = unpack_be bs"

text \<open>
  Modelled from the spec: \<open>websocket_mask\<close> of \<open>_websocket/helpers.py\<close>, which is not
  among the sources. The spec: unmasking is \<open>payload[i] ^= key[i % 4]\<close>. The model
  returns the masked copy of the payload that the source writes in place.
\<close>

definition websocket_mask :: "bytes \<Rightarrow> bytes \<Rightarrow> bytes" where
  "websocket_mask key data =
     map (\<lambda>(i, b). b XOR key ! (i mod 4)) (zip [0 ..< length data] data)"

text \<open>
  Modelled from the spec: the members of \<open>WSCloseCode\<close> and \<open>WS_DEFLATE_TRAILING\<close> of
  \<open>_websocket/models.py\<close>, which is not among the sources. The spec gives the three
  codes the reader raises with, the set of all codes, and the four trailer bytes.
\<close>

definition PROTOCOL_ERROR :: nat where "PROTOCOL_ERROR = 1002"
definition INVALID_TEXT :: nat where "INVALID_TEXT = 1007"
definition MESSAGE_TOO_BIG :: nat where "MESSAGE_TOO_BIG = 1009"

definition ALLOWED_CLOSE_CODES :: "nat set" where
  "ALLOWED_CLOSE_CODES =
     {1000, 1001, 1002, 1003, 1007, 1008, 1009, 1010, 1011, 1012, 1013, 1014, 1015}"

definition WS_DEFLATE_TRAILING :: bytes where
  "WS_DEFLATE_TRAILING = [0x00, 0x00, 0xFF, 0xFF]"

definition OP_CODE_CONTINUATION :: nat where "OP_CODE_CONTINUATION = 0x0"
definition OP_CODE_TEXT :: nat where "OP_CODE_TEXT = 0x1"
definition OP_CODE_BINARY :: nat where "OP_CODE_BINARY = 0x2"
definition OP_CODE_CLOSE :: nat where "OP_CODE_CLOSE = 0x8"
definition OP_CODE_PING :: nat where "OP_CODE_PING = 0x9"
definition OP_CODE_PONG :: nat where "OP_CODE_PONG = 0xA"

subsection \<open>Errors, messages and the sink\<close>

text \<open>
  The message of a \<open>WebSocketError\<close> is a formatted string in the source. The model
  keeps which message it is, with the values the source formats into it.
\<close>

datatype error_message =
    NonZeroReservedBits
  | FragmentedControlFrame
  | ControlFrameTooLarge
  | MessageSizeExceedsLimit int int
  | ContinuationForNonStarted
  | OpcodeExpectedZero "nat option"
  | DecompressedSizeExceedsLimit int int
  | InvalidUTF8Text
  | InvalidCloseCode nat
  | InvalidCloseFrame bool "nat option" bytes
  | UnexpectedOpcode "nat option"

text \<open>
  \<open>DecompressError\<close> is whatever exception the decompressor raises on input it cannot
  inflate; \<open>feed_data\<close> catches every \<open>Exception\<close>.
\<close>

datatype error = WebSocketError nat error_message | DecompressError

text \<open>Each message is its \<open>data\<close> and its \<open>extra\<close>.\<close>

datatype WSMessage =
    WSMessageText str str
  | WSMessageBinary bytes str
  | WSMessagePing bytes str
  | WSMessagePong bytes str
  | WSMessageClose nat str

text \<open>
  Modelled from the spec: the sink, \<open>DataQueue\<close> of \<open>streams.py\<close> with \<open>set_exception\<close>
  of \<open>helpers.py\<close>, neither among the sources. The spec gives it three operations:
  \<open>feed_data(msg)\<close> delivers one message, \<open>feed_eof()\<close> ends the stream,
  \<open>set_exception(err)\<close> records a fatal error.
\<close>

record DataQueue =
  buffer :: "WSMessage list"
  eof :: bool
  exception :: "error option"

definition queue_feed_data :: "DataQueue \<Rightarrow> WSMessage \<Rightarrow> DataQueue" where
  "queue_feed_data q msg = q\<lparr>buffer := buffer q @ [msg]\<rparr>"

definition queue_feed_eof :: "DataQueue \<Rightarrow> DataQueue" where
  "queue_feed_eof q = q\<lparr>eof := True\<rparr>"

definition set_exception :: "DataQueue \<Rightarrow> error \<Rightarrow> DataQueue" where
  "set_exception q e = q\<lparr>exception := Some e\<rparr>"

text \<open>
  \<open>ZLibDecompressor\<close> of \<open>compression_utils.py\<close> is not among the sources, and the spec
  does not say what inflation computes, so the decompressor is a parameter of the
  model: the state of a newly constructed object, and \<open>decompress_sync\<close>, which takes
  the object, the data and \<open>max_length\<close> and gives the object afterwards, the output
  and \<open>unconsumed_tail\<close>, or \<open>None\<close> when it raises.
\<close>

record 'z ZLibDecompressor =
  new_decompressor :: 'z
  decompress_sync :: "'z \<Rightarrow> bytes \<Rightarrow> int \<Rightarrow> ('z \<times> bytes \<times> bytes) option"

subsection \<open>The reader\<close>

datatype parse_state = READ_HEADER | READ_PAYLOAD_LENGTH | READ_PAYLOAD_MASK | READ_PAYLOAD

text \<open>The fields of \<open>WebSocketReader\<close>, without the leading underscore.\<close>

record 'z reader =
  queue :: DataQueue
  max_msg_size :: int
  exc :: "error option"
  partial :: bytes
  state :: parse_state
  opcode :: "nat option"
  frame_fin :: bool
  frame_opcode :: "nat option"
  frame_payload :: bytes
  tail :: bytes
  has_mask :: bool
  frame_mask :: "bytes option"
  payload_length :: nat
  payload_length_flag :: nat
  compressed :: "bool option"
  decompressobj :: "'z option"
  compress :: bool

definition init :: "DataQueue \<Rightarrow> int \<Rightarrow> bool \<Rightarrow> 'z reader" where
  "init q max_size compr =
     \<lparr>queue = q, max_msg_size = max_size, exc = None, partial = [],
      state = READ_HEADER, opcode = None, frame_fin = False, frame_opcode = None,
      frame_payload = [], tail = [], has_mask = False, frame_mask = None,
      payload_length = 0, payload_length_flag = 0, compressed = None,
      decompressobj = None, compress = compr\<rparr>"

definition feed_eof :: "'z reader \<Rightarrow> 'z reader" where
  "feed_eof r = r\<lparr>queue := queue_feed_eof (queue r)\<rparr>"

subsection \<open>\<open>parse_frame\<close>\<close>

text \<open>
  A frame record is \<open>(fin, opcode, payload, compressed)\<close>. In the loop of
  \<open>parse_frame\<close> the model carries the unread rest of the buffer, \<open>buf[start_pos:]\<close>,
  so that \<open>start_pos += n\<close> is \<open>drop n\<close> and \<open>buf_length - start_pos\<close> is its length.
  One pass through the loop body runs the four \<open>if self._state == ...\<close> blocks in
  order; each one either raises, breaks out of the loop, or goes on.
\<close>

type_synonym frame = "bool \<times> nat option \<times> bytes \<times> bool option"

datatype 'z outcome =
    Raise error "'z reader"
  | Break "'z reader" bytes "frame list"
  | Go "'z reader" bytes "frame list"

definition read_header :: "'z reader \<Rightarrow> bytes \<Rightarrow> frame list \<Rightarrow> 'z outcome" where
  "read_header r buf frames =
     (if state r = READ_HEADER then
        if length buf < 2 then Break r buf frames
        else
          let data = take 2 buf;
              rest = drop 2 buf;
              first_byte = unat (data ! 0);
              second_byte = unat (data ! 1);
              fin = drop_bit 7 first_byte AND 1;
              rsv1 = drop_bit 6 first_byte AND 1;
              rsv2 = drop_bit 5 first_byte AND 1;
              rsv3 = drop_bit 4 first_byte AND 1;
              opc = first_byte AND 0xF
          in
          if rsv2 \<noteq> 0 \<or> rsv3 \<noteq> 0 \<or> (rsv1 \<noteq> 0 \<and> \<not> compress r)
            then Raise (WebSocketError PROTOCOL_ERROR NonZeroReservedBits) r
          else if opc > 0x7 \<and> fin = 0
            then Raise (WebSocketError PROTOCOL_ERROR FragmentedControlFrame) r
          else
            let mask_bit = drop_bit 7 second_byte AND 1;
                len = second_byte AND 0x7F
            in
            if opc > 0x7 \<and> len > 125
              then Raise (WebSocketError PROTOCOL_ERROR ControlFrameTooLarge) r
            else if \<not> (frame_fin r \<or> compressed r = None) \<and> rsv1 \<noteq> 0
              then Raise (WebSocketError PROTOCOL_ERROR NonZeroReservedBits) r
            else
              let r1 = (if frame_fin r \<or> compressed r = None
                        then r\<lparr>compressed := Some (rsv1 \<noteq> 0)\<rparr> else r)
              in Go (r1\<lparr>frame_fin := (fin \<noteq> 0), frame_opcode := Some opc,
                        has_mask := (mask_bit \<noteq> 0), payload_length_flag := len,
                        state := READ_PAYLOAD_LENGTH\<rparr>) rest frames
      else Go r buf frames)"

definition read_payload_length :: "'z reader \<Rightarrow> bytes \<Rightarrow> frame list \<Rightarrow> 'z outcome" where
  "read_payload_length r buf frames =
     (if state r = READ_PAYLOAD_LENGTH then
        let length_flag = payload_length_flag r;
            next_state = (if has_mask r then READ_PAYLOAD_MASK else READ_PAYLOAD)
        in
        if length_flag = 126 then
          if length buf < 2 then Break r buf frames
          else
            let first_byte = unat (buf ! 0);
                second_byte = unat (buf ! 1)
            in Go (r\<lparr>payload_length := push_bit 8 first_byte OR second_byte,
                      state := next_state\<rparr>) (drop 2 buf) frames
        else if length_flag > 126 then
          if length buf < 8 then Break r buf frames
          else Go (r\<lparr>payload_length := UNPACK_LEN3 (take 8 buf),
                      state := next_state\<rparr>) (drop 8 buf) frames
        else Go (r\<lparr>payload_length := length_flag, state := next_state\<rparr>) buf frames
      else Go r buf frames)"

definition read_payload_mask :: "'z reader \<Rightarrow> bytes \<Rightarrow> frame list \<Rightarrow> 'z outcome" where
  "read_payload_mask r buf frames =
     (if state r = READ_PAYLOAD_MASK then
        if length buf < 4 then Break r buf frames
        else Go (r\<lparr>frame_mask := Some (take 4 buf), state := READ_PAYLOAD\<rparr>)
               (drop 4 buf) frames
      else Go r buf frames)"

text \<open>
  In the last block \<open>payload\<close> is the bytearray \<open>self._frame_payload\<close>, extended and
  unmasked in place; the frame record takes that object and the field gets a new
  empty one. The source asserts that the mask is set when \<open>has_mask\<close> is; every pass
  that sets \<open>has_mask\<close> reads a mask before it gets here.
\<close>

definition read_payload :: "'z reader \<Rightarrow> bytes \<Rightarrow> frame list \<Rightarrow> 'z outcome" where
  "read_payload r buf frames =
     (if state r = READ_PAYLOAD then
        let len = payload_length r;
            chunk_len = length buf;
            r1 = (if len \<ge> chunk_len
                  then r\<lparr>payload_length := len - chunk_len,
                         frame_payload := frame_payload r @ buf\<rparr>
                  else r\<lparr>payload_length := 0,
                         frame_payload := frame_payload r @ take len buf\<rparr>);
            rest = (if len \<ge> chunk_len then [] else drop len buf)
        in
        if payload_length r1 \<noteq> 0 then Break r1 rest frames
        else
          let payload = (if has_mask r1
                         then websocket_mask (the (frame_mask r1)) (frame_payload r1)
                         else frame_payload r1)
          in Go (r1\<lparr>frame_payload := [], state := READ_HEADER\<rparr>) rest
               (frames @ [(frame_fin r1, frame_opcode r1, payload, compressed r1)])
      else Go r buf frames)"

definition and_then ::
  "'z outcome \<Rightarrow> ('z reader \<Rightarrow> bytes \<Rightarrow> frame list \<Rightarrow> 'z outcome) \<Rightarrow> 'z outcome" where
  "and_then x f = (case x of Go r buf frames \<Rightarrow> f r buf frames | _ \<Rightarrow> x)"

definition loop_body :: "'z reader \<Rightarrow> bytes \<Rightarrow> frame list \<Rightarrow> 'z outcome" where
  "loop_body r buf frames =
     and_then (and_then (and_then (read_header r buf frames)
       read_payload_length) read_payload_mask) read_payload"

text \<open>
  A pass that goes round the loop again ends in \<open>READ_HEADER\<close> and has read at least
  the two header bytes when it started there, so the loop terminates.
\<close>

lemma read_header_Go:
  assumes "read_header r buf frames = Go r' buf' frames'"
  shows "frames' = frames \<and>
         (if state r = READ_HEADER
          then state r' = READ_PAYLOAD_LENGTH \<and> length buf' + 2 \<le> length buf
          else r' = r \<and> buf' = buf)"
  using assms
  by (simp add: read_header_def Let_def split: if_splits) auto

lemma read_payload_length_Go:
  assumes "read_payload_length r buf frames = Go r' buf' frames'"
  shows "frames' = frames \<and> length buf' \<le> length buf \<and>
         (if state r = READ_PAYLOAD_LENGTH
          then state r' = READ_PAYLOAD_MASK \<or> state r' = READ_PAYLOAD
          else r' = r \<and> buf' = buf)"
  using assms
  by (simp add: read_payload_length_def Let_def split: if_splits) auto

lemma read_payload_mask_Go:
  assumes "read_payload_mask r buf frames = Go r' buf' frames'"
  shows "frames' = frames \<and> length buf' \<le> length buf \<and>
         (if state r = READ_PAYLOAD_MASK
          then state r' = READ_PAYLOAD
          else r' = r \<and> buf' = buf)"
  using assms
  by (simp add: read_payload_mask_def split: if_splits) auto

lemma read_payload_Go:
  assumes "read_payload r buf frames = Go r' buf' frames'"
  shows "length buf' \<le> length buf \<and>
         (if state r = READ_PAYLOAD
          then state r' = READ_HEADER
          else r' = r \<and> buf' = buf \<and> frames' = frames)"
  using assms
  by (simp add: read_payload_def Let_def split: if_splits) auto

lemma and_then_Go:
  "and_then x f = Go r' buf' frames' \<longleftrightarrow>
     (\<exists>r1 buf1 frames1. x = Go r1 buf1 frames1 \<and> f r1 buf1 frames1 = Go r' buf' frames')"
  by (cases x) (simp_all add: and_then_def)

lemma loop_body_Go:
  assumes "loop_body r buf frames = Go r' buf' frames'"
  shows "state r' = READ_HEADER \<and> length buf' \<le> length buf
         \<and> (state r = READ_HEADER \<longrightarrow> length buf' < length buf)"
proof -
  from assms obtain r1 b1 f1 r2 b2 f2 r3 b3 f3 where
    h: "read_header r buf frames = Go r1 b1 f1" and
    l: "read_payload_length r1 b1 f1 = Go r2 b2 f2" and
    m: "read_payload_mask r2 b2 f2 = Go r3 b3 f3" and
    p: "read_payload r3 b3 f3 = Go r' buf' frames'"
    unfolding loop_body_def and_then_Go by blast
  note H = read_header_Go [OF h] and L = read_payload_length_Go [OF l]
    and M = read_payload_mask_Go [OF m] and P = read_payload_Go [OF p]
  show ?thesis
  proof (cases "state r")
    case READ_HEADER
    with H L M P show ?thesis by (auto split: if_splits)
  next
    case READ_PAYLOAD_LENGTH
    with H L M P show ?thesis by (auto split: if_splits)
  next
    case READ_PAYLOAD_MASK
    with H L M P show ?thesis by (auto split: if_splits)
  next
    case READ_PAYLOAD
    with H L M P show ?thesis by (auto split: if_splits)
  qed
qed

function parse_loop ::
  "'z reader \<Rightarrow> bytes \<Rightarrow> frame list
     \<Rightarrow> (error \<times> 'z reader) + ('z reader \<times> bytes \<times> frame list)"
where
  "parse_loop r buf frames =
     (case loop_body r buf frames of
        Raise e r' \<Rightarrow> Inl (e, r')
      | Break r' rest frames' \<Rightarrow> Inr (r', rest, frames')
      | Go r' rest frames' \<Rightarrow> parse_loop r' rest frames')"
  by pat_completeness auto
termination
proof (relation "measure (\<lambda>(r, buf, frames).
         2 * length buf + (if state r = READ_HEADER then 0 else 1))")
  show "wf (measure (\<lambda>(r :: 'z reader, buf :: bytes, frames :: frame list).
         2 * length buf + (if state r = READ_HEADER then 0 else 1)))"
    by simp
next
  fix r :: "'z reader" and buf frames r' rest frames'
  assume "loop_body r buf frames = Go r' rest frames'"
  from loop_body_Go [OF this]
  show "((r', rest, frames'), (r, buf, frames))
        \<in> measure (\<lambda>(r, buf, frames).
             2 * length buf + (if state r = READ_HEADER then 0 else 1))"
    by auto
qed

declare parse_loop.simps [simp del]

text \<open>
  \<open>parse_frame\<close>: the tail of the last call goes in front of the chunk, the loop
  runs, and what it did not read is the new tail.
\<close>

definition parse_frame ::
  "'z reader \<Rightarrow> bytes \<Rightarrow> (error \<times> 'z reader) + ('z reader \<times> frame list)" where
  "parse_frame r buf =
     (case parse_loop (r\<lparr>tail := []\<rparr>) (tail r @ buf) [] of
        Inl x \<Rightarrow> Inl x
      | Inr (r', rest, frames) \<Rightarrow> Inr (r'\<lparr>tail := rest\<rparr>, frames))"

subsection \<open>\<open>_feed_data\<close> and \<open>feed_data\<close>\<close>

text \<open>
  The body of the \<open>for frame in ...\<close> loop of \<open>_feed_data\<close>, in three parts: a data
  frame without \<open>fin\<close> (lines 109 to 121), the message that a data frame with \<open>fin\<close>
  completes (lines 141 to 194, after the sequencing checks of lines 123 to 139), and
  a close frame (lines 196 to 218).
\<close>

definition accumulate_partial ::
  "'z reader \<Rightarrow> nat option \<Rightarrow> bytes \<Rightarrow> (error \<times> 'z reader) + 'z reader" where
  "accumulate_partial r opc payload =
     (let is_continuation = (opc = Some OP_CODE_CONTINUATION);
          r1 = (if \<not> is_continuation then r\<lparr>opcode := opc\<rparr> else r);
          r2 = r1\<lparr>partial := partial r1 @ payload\<rparr>
      in
      if max_msg_size r2 \<noteq> 0 \<and> int (length (partial r2)) \<ge> max_msg_size r2
        then Inl (WebSocketError MESSAGE_TOO_BIG
                    (MessageSizeExceedsLimit (int (length (partial r2))) (max_msg_size r2)), r2)
      else Inr r2)"

definition decompress_payload ::
  "'z ZLibDecompressor \<Rightarrow> 'z reader \<Rightarrow> bytes \<Rightarrow> bool option
     \<Rightarrow> (error \<times> 'z reader) + ('z reader \<times> bytes)" where
  "decompress_payload Z r assembled_payload compr =
     (if compr = Some True then
        let r1 = (if decompressobj r = None
                  then r\<lparr>decompressobj := Some (new_decompressor Z)\<rparr> else r)
        in
        case decompress_sync Z (the (decompressobj r1))
               (assembled_payload @ WS_DEFLATE_TRAILING) (max_msg_size r1) of
          None \<Rightarrow> Inl (DecompressError, r1)
        | Some (z, payload_merged, unconsumed_tail) \<Rightarrow>
            let r2 = r1\<lparr>decompressobj := Some z\<rparr> in
            if unconsumed_tail \<noteq> [] then
              Inl (WebSocketError MESSAGE_TOO_BIG
                     (DecompressedSizeExceedsLimit
                        (max_msg_size r2 + int (length unconsumed_tail)) (max_msg_size r2)), r2)
            else Inr (r2, payload_merged)
      else Inr (r, assembled_payload))"

definition finish_message ::
  "'z ZLibDecompressor \<Rightarrow> 'z reader \<Rightarrow> bool \<Rightarrow> nat option \<Rightarrow> bytes \<Rightarrow> bool option
     \<Rightarrow> (error \<times> 'z reader) + 'z reader" where
  "finish_message Z r has_partial opc payload compr =
     (let assembled_payload = (if has_partial then partial r @ payload else payload);
          r1 = (if has_partial then r\<lparr>partial := []\<rparr> else r)
      in
      if max_msg_size r1 \<noteq> 0 \<and> int (length assembled_payload) \<ge> max_msg_size r1
        then Inl (WebSocketError MESSAGE_TOO_BIG
                    (MessageSizeExceedsLimit (int (length assembled_payload)) (max_msg_size r1)),
                  r1)
      else
        case decompress_payload Z r1 assembled_payload compr of
          Inl x \<Rightarrow> Inl x
        | Inr (r2, payload_merged) \<Rightarrow>
            if opc = Some OP_CODE_TEXT then
              case utf8_decode payload_merged of
                None \<Rightarrow> Inl (WebSocketError INVALID_TEXT InvalidUTF8Text, r2)
              | Some text \<Rightarrow>
                  Inr (r2\<lparr>queue := queue_feed_data (queue r2) (WSMessageText text [])\<rparr>)
            else
              Inr (r2\<lparr>queue := queue_feed_data (queue r2) (WSMessageBinary payload_merged [])\<rparr>))"

definition close_frame ::
  "'z reader \<Rightarrow> bool \<Rightarrow> nat option \<Rightarrow> bytes \<Rightarrow> (error \<times> 'z reader) + 'z reader" where
  "close_frame r fin opc payload =
     (if length payload \<ge> 2 then
        let close_code = UNPACK_CLOSE_CODE (take 2 payload) in
        if close_code < 3000 \<and> close_code \<notin> ALLOWED_CLOSE_CODES
          then Inl (WebSocketError PROTOCOL_ERROR (InvalidCloseCode close_code), r)
        else
          case utf8_decode (drop 2 payload) of
            None \<Rightarrow> Inl (WebSocketError INVALID_TEXT InvalidUTF8Text, r)
          | Some close_message \<Rightarrow>
              Inr (r\<lparr>queue := queue_feed_data (queue r) (WSMessageClose close_code close_message)\<rparr>)
      else if payload \<noteq> []
        then Inl (WebSocketError PROTOCOL_ERROR (InvalidCloseFrame fin opc payload), r)
      else Inr (r\<lparr>queue := queue_feed_data (queue r) (WSMessageClose 0 [])\<rparr>))"

fun handle_frame ::
  "'z ZLibDecompressor \<Rightarrow> 'z reader \<Rightarrow> frame \<Rightarrow> (error \<times> 'z reader) + 'z reader" where
  "handle_frame Z r (fin, opc, payload, compr) =
     (let is_continuation = (opc = Some OP_CODE_CONTINUATION) in
      if opc = Some OP_CODE_TEXT \<or> opc = Some OP_CODE_BINARY \<or> is_continuation then
        if \<not> fin then accumulate_partial r opc payload
        else
          let has_partial = (partial r \<noteq> []) in
          if is_continuation then
            if opcode r = None
              then Inl (WebSocketError PROTOCOL_ERROR ContinuationForNonStarted, r)
            else finish_message Z (r\<lparr>opcode := None\<rparr>) has_partial (opcode r) payload compr
          else if has_partial
            then Inl (WebSocketError PROTOCOL_ERROR (OpcodeExpectedZero opc), r)
          else finish_message Z r has_partial opc payload compr
      else if opc = Some OP_CODE_CLOSE then close_frame r fin opc payload
      else if opc = Some OP_CODE_PING
        then Inr (r\<lparr>queue := queue_feed_data (queue r) (WSMessagePing payload [])\<rparr>)
      else if opc = Some OP_CODE_PONG
        then Inr (r\<lparr>queue := queue_feed_data (queue r) (WSMessagePong payload [])\<rparr>)
      else Inl (WebSocketError PROTOCOL_ERROR (UnexpectedOpcode opc), r))"

declare handle_frame.simps [simp del]

fun handle_frames ::
  "'z ZLibDecompressor \<Rightarrow> 'z reader \<Rightarrow> frame list \<Rightarrow> (error \<times> 'z reader) + 'z reader" where
  "handle_frames Z r [] = Inr r"
| "handle_frames Z r (frame # frames) =
     (case handle_frame Z r frame of
        Inl x \<Rightarrow> Inl x
      | Inr r' \<Rightarrow> handle_frames Z r' frames)"

text \<open>
  \<open>_feed_data\<close> (an Isabelle name cannot begin with an underscore): all of the chunk
  is parsed first, then the frames are handled in order.
\<close>

definition u_feed_data ::
  "'z ZLibDecompressor \<Rightarrow> 'z reader \<Rightarrow> bytes \<Rightarrow> (error \<times> 'z reader) + 'z reader" where
  "u_feed_data Z r data =
     (case parse_frame r data of
        Inl x \<Rightarrow> Inl x
      | Inr (r', frames) \<Rightarrow> handle_frames Z r' frames)"

definition EMPTY_FRAME_ERROR :: "bool \<times> bytes" where
  "EMPTY_FRAME_ERROR = (True, [])"

definition EMPTY_FRAME :: "bool \<times> bytes" where
  "EMPTY_FRAME = (False, [])"

definition feed_data ::
  "'z ZLibDecompressor \<Rightarrow> 'z reader \<Rightarrow> bytes \<Rightarrow> 'z reader \<times> (bool \<times> bytes)" where
  "feed_data Z r data =
     (if exc r \<noteq> None then (r, (True, data))
      else
        case u_feed_data Z r data of
          Inl (e, r') \<Rightarrow>
            (r'\<lparr>exc := Some e, queue := set_exception (queue r') e\<rparr>, EMPTY_FRAME_ERROR)
        | Inr r' \<Rightarrow> (r', EMPTY_FRAME))"

text \<open>
  The transport calls \<open>feed_data\<close> once for each chunk it receives. \<open>feed_chunks\<close> is
  that sequence of calls on one reader; it gives the reader afterwards and what each
  call returned.
\<close>

fun feed_chunks ::
  "'z ZLibDecompressor \<Rightarrow> 'z reader \<Rightarrow> bytes list \<Rightarrow> 'z reader \<times> (bool \<times> bytes) list" where
  "feed_chunks Z r [] = (r, [])"
| "feed_chunks Z r (c # cs) =
     (case feed_data Z r c of
        (r', res) \<Rightarrow> (case feed_chunks Z r' cs of (r'', ress) \<Rightarrow> (r'', res # ress)))"

text \<open>
  A decompressor to run examples with. It inflates raw deflate data made of stored
  blocks only (block type 00: a header byte, the length and its complement in two
  little-endian bytes each, then the bytes themselves), raises on anything else, and
  ignores \<open>max_length\<close>, so that it leaves no unconsumed tail. The theorems below hold
  for every decompressor; this one only instantiates them.
\<close>

fun inflate_stored :: "bytes \<Rightarrow> bytes option" where
  "inflate_stored [] = Some []"
| "inflate_stored (h # l0 # l1 # n0 # n1 # rest) =
     (let len = unat l0 + 256 * unat l1 in
      if h AND 6 = 0 \<and> n0 = NOT l0 \<and> n1 = NOT l1 \<and> len \<le> length rest
      then map_option ((@) (take len rest)) (inflate_stored (drop len rest))
      else None)"
| "inflate_stored _ = None"

definition example_decompressor :: "unit ZLibDecompressor" where
  "example_decompressor =
     \<lparr>new_decompressor = (),
      decompress_sync =
        (\<lambda>z data max_length. map_option (\<lambda>out. (z, out, [])) (inflate_stored data))\<rparr>"

definition empty_queue :: DataQueue where
  "empty_queue = \<lparr>buffer = [], eof = False, exception = None\<rparr>"

subsection \<open>Byte arrays as objects\<close>

text \<open>
  A \<open>bytearray\<close> is a mutable object: \<open>+=\<close>, \<open>clear\<close> and \<open>websocket_mask\<close> change it in
  place, and a frame tuple or a message holds a reference to it, not a copy. To follow
  which object each write reaches, the store maps an address to the bytes of the
  object there; \<open>bytearray()\<close> takes the next address. \<open>bytes\<close> and \<open>str\<close> values are
  immutable and stay values.
\<close>

type_synonym addr = nat

record heap =
  store :: "addr \<Rightarrow> bytes"
  next_addr :: addr

definition new_bytearray :: "heap \<Rightarrow> heap \<times> addr" where
  "new_bytearray h =
     (h\<lparr>store := (store h)(next_addr h := []), next_addr := Suc (next_addr h)\<rparr>, next_addr h)"

definition bytearray_extend :: "heap \<Rightarrow> addr \<Rightarrow> bytes \<Rightarrow> heap" where
  "bytearray_extend h a data = h\<lparr>store := (store h)(a := store h a @ data)\<rparr>"

text \<open>
  The reader again, with \<open>_frame_payload\<close> and \<open>_partial\<close> as references into the store.
  All other attributes are those of \<open>base\<close>; its fields \<open>frame_payload\<close> and \<open>partial\<close> and
  the buffer of its queue are not read here. A message handed to the sink is kept in
  \<open>delivered\<close>: a ping or a pong is built with \<open>data=payload\<close>, the bytearray of the frame
  itself, and so holds its address; text, binary and close messages hold immutable
  values (\<open>str\<close>, \<open>bytes\<close>, the close code and reason).
\<close>

datatype object_message =
    ByValue WSMessage
  | PingObject addr
  | PongObject addr

record 'z object_reader =
  base :: "'z reader"
  frame_payload_ref :: addr
  partial_ref :: addr
  heap :: heap
  delivered :: "object_message list"

definition object_init :: "DataQueue \<Rightarrow> int \<Rightarrow> bool \<Rightarrow> 'z object_reader" where
  "object_init q max_size compr =
     \<lparr>base = init q max_size compr, frame_payload_ref = 1, partial_ref = 0,
      heap = \<lparr>store = (\<lambda>a. []), next_addr = 2\<rparr>, delivered = []\<rparr>"

text \<open>A frame tuple holds the address of its payload.\<close>

type_synonym object_frame = "bool \<times> nat option \<times> addr \<times> bool option"

datatype 'z object_outcome =
    ORaise error "'z object_reader"
  | OBreak "'z object_reader" bytes "object_frame list"
  | OGo "'z object_reader" bytes "object_frame list"

text \<open>
  The header, length and mask blocks of the loop touch no bytearray: they run on \<open>base\<close>
  as before. The payload block is lines 339 to 364: \<open>payload\<close> is the object
  \<open>self._frame_payload\<close> refers to, \<open>+=\<close> and \<open>websocket_mask\<close> write to it, the tuple appended
  to \<open>frames\<close> holds it, and \<open>self._frame_payload = bytearray()\<close> makes the attribute refer
  to a new object.
\<close>

definition object_block ::
  "('z reader \<Rightarrow> bytes \<Rightarrow> frame list \<Rightarrow> 'z outcome)
     \<Rightarrow> 'z object_reader \<Rightarrow> bytes \<Rightarrow> object_frame list \<Rightarrow> 'z object_outcome" where
  "object_block block R buf frames =
     (case block (base R) buf [] of
        Raise e r \<Rightarrow> ORaise e (R\<lparr>base := r\<rparr>)
      | Break r rest new \<Rightarrow> OBreak (R\<lparr>base := r\<rparr>) rest frames
      | Go r rest new \<Rightarrow> OGo (R\<lparr>base := r\<rparr>) rest frames)"

definition object_read_payload ::
  "'z object_reader \<Rightarrow> bytes \<Rightarrow> object_frame list \<Rightarrow> 'z object_outcome" where
  "object_read_payload R buf frames =
     (let r = base R in
      if state r = READ_PAYLOAD then
        let len = payload_length r;
            payload = frame_payload_ref R;
            chunk_len = length buf;
            r1 = (if len \<ge> chunk_len then r\<lparr>payload_length := len - chunk_len\<rparr>
                  else r\<lparr>payload_length := 0\<rparr>);
            h1 = (if len \<ge> chunk_len then bytearray_extend (heap R) payload buf
                  else bytearray_extend (heap R) payload (take len buf));
            rest = (if len \<ge> chunk_len then [] else drop len buf)
        in
        if payload_length r1 \<noteq> 0 then OBreak (R\<lparr>base := r1, heap := h1\<rparr>) rest frames
        else
          let h2 = (if has_mask r1
                    then h1\<lparr>store := (store h1)
                            (payload := websocket_mask (the (frame_mask r1)) (store h1 payload))\<rparr>
                    else h1);
              (h3, fresh) = new_bytearray h2
          in OGo (R\<lparr>base := r1\<lparr>state := READ_HEADER\<rparr>, frame_payload_ref := fresh,
                     heap := h3\<rparr>) rest
               (frames @ [(frame_fin r1, frame_opcode r1, payload, compressed r1)])
      else OGo R buf frames)"

definition object_and_then ::
  "'z object_outcome
     \<Rightarrow> ('z object_reader \<Rightarrow> bytes \<Rightarrow> object_frame list \<Rightarrow> 'z object_outcome)
     \<Rightarrow> 'z object_outcome" where
  "object_and_then x f = (case x of OGo R buf frames \<Rightarrow> f R buf frames | _ \<Rightarrow> x)"

definition object_loop_body ::
  "'z object_reader \<Rightarrow> bytes \<Rightarrow> object_frame list \<Rightarrow> 'z object_outcome" where
  "object_loop_body R buf frames =
     object_and_then (object_and_then (object_and_then (object_block read_header R buf frames)
       (object_block read_payload_length)) (object_block read_payload_mask)) object_read_payload"

lemma object_block_Go:
  assumes "object_block block R buf frames = OGo R' buf' frames'"
  shows "\<exists>new. block (base R) buf [] = Go (base R') buf' new"
  using assms by (auto simp add: object_block_def split: outcome.splits)

lemma object_read_payload_Go:
  assumes "object_read_payload R buf frames = OGo R' buf' frames'"
  shows "length buf' \<le> length buf \<and>
         (if state (base R) = READ_PAYLOAD
          then state (base R') = READ_HEADER
          else R' = R \<and> buf' = buf \<and> frames' = frames)"
  using assms
  by (auto simp add: object_read_payload_def Let_def split: if_splits prod.splits)

lemma object_and_then_Go:
  "object_and_then x f = OGo R' buf' frames' \<longleftrightarrow>
     (\<exists>R1 buf1 frames1. x = OGo R1 buf1 frames1 \<and> f R1 buf1 frames1 = OGo R' buf' frames')"
  by (cases x) (simp_all add: object_and_then_def)

lemma object_loop_body_Go:
  assumes "object_loop_body R buf frames = OGo R' buf' frames'"
  shows "state (base R') = READ_HEADER \<and> length buf' \<le> length buf
         \<and> (state (base R) = READ_HEADER \<longrightarrow> length buf' < length buf)"
proof -
  from assms obtain R1 b1 f1 R2 b2 f2 R3 b3 f3 where
    h: "object_block read_header R buf frames = OGo R1 b1 f1" and
    l: "object_block read_payload_length R1 b1 f1 = OGo R2 b2 f2" and
    m: "object_block read_payload_mask R2 b2 f2 = OGo R3 b3 f3" and
    p: "object_read_payload R3 b3 f3 = OGo R' buf' frames'"
    unfolding object_loop_body_def object_and_then_Go by blast
  from object_block_Go [OF h] obtain n1 where
    h': "read_header (base R) buf [] = Go (base R1) b1 n1" by blast
  from object_block_Go [OF l] obtain n2 where
    l': "read_payload_length (base R1) b1 [] = Go (base R2) b2 n2" by blast
  from object_block_Go [OF m] obtain n3 where
    m': "read_payload_mask (base R2) b2 [] = Go (base R3) b3 n3" by blast
  note H = read_header_Go [OF h'] and L = read_payload_length_Go [OF l']
    and M = read_payload_mask_Go [OF m'] and P = object_read_payload_Go [OF p]
  show ?thesis
  proof (cases "state (base R)")
    case READ_HEADER
    with H L M P show ?thesis by (auto split: if_splits)
  next
    case READ_PAYLOAD_LENGTH
    with H L M P show ?thesis by (auto split: if_splits)
  next
    case READ_PAYLOAD_MASK
    with H L M P show ?thesis by (auto split: if_splits)
  next
    case READ_PAYLOAD
    with H L M P show ?thesis by (auto split: if_splits)
  qed
qed

function object_parse_loop ::
  "'z object_reader \<Rightarrow> bytes \<Rightarrow> object_frame list
     \<Rightarrow> (error \<times> 'z object_reader) + ('z object_reader \<times> bytes \<times> object_frame list)"
where
  "object_parse_loop R buf frames =
     (case object_loop_body R buf frames of
        ORaise e R' \<Rightarrow> Inl (e, R')
      | OBreak R' rest frames' \<Rightarrow> Inr (R', rest, frames')
      | OGo R' rest frames' \<Rightarrow> object_parse_loop R' rest frames')"
  by pat_completeness auto
termination
proof (relation "measure (\<lambda>(R, buf, frames).
         2 * length buf + (if state (base R) = READ_HEADER then 0 else 1))")
  show "wf (measure (\<lambda>(R :: 'z object_reader, buf :: bytes, frames :: object_frame list).
         2 * length buf + (if state (base R) = READ_HEADER then 0 else 1)))"
    by simp
next
  fix R :: "'z object_reader" and buf frames R' rest frames'
  assume "object_loop_body R buf frames = OGo R' rest frames'"
  from object_loop_body_Go [OF this]
  show "((R', rest, frames'), (R, buf, frames))
        \<in> measure (\<lambda>(R, buf, frames).
             2 * length buf + (if state (base R) = READ_HEADER then 0 else 1))"
    by auto
qed

declare object_parse_loop.simps [simp del]

definition object_parse_frame ::
  "'z object_reader \<Rightarrow> bytes
     \<Rightarrow> (error \<times> 'z object_reader) + ('z object_reader \<times> object_frame list)" where
  "object_parse_frame R buf =
     (case object_parse_loop (R\<lparr>base := (base R)\<lparr>tail := []\<rparr>\<rparr>)
             (tail (base R) @ buf) [] of
        Inl x \<Rightarrow> Inl x
      | Inr (R', rest, frames) \<Rightarrow> Inr (R'\<lparr>base := (base R')\<lparr>tail := rest\<rparr>\<rparr>, frames))"

text \<open>
  \<open>_feed_data\<close> on objects. \<open>self._partial += payload\<close> appends the content of the payload
  to the object \<open>_partial\<close> refers to, \<open>self._partial + payload\<close> builds a new value, and
  \<open>self._partial.clear()\<close> empties the object in place. \<open>bytes(assembled_payload)\<close> and the
  output of the decompressor are immutable.
\<close>

definition object_accumulate_partial ::
  "'z object_reader \<Rightarrow> nat option \<Rightarrow> addr
     \<Rightarrow> (error \<times> 'z object_reader) + 'z object_reader" where
  "object_accumulate_partial R opc payload =
     (let is_continuation = (opc = Some OP_CODE_CONTINUATION);
          r1 = (if \<not> is_continuation then (base R)\<lparr>opcode := opc\<rparr> else base R);
          h1 = bytearray_extend (heap R) (partial_ref R) (store (heap R) payload);
          R1 = R\<lparr>base := r1, heap := h1\<rparr>;
          n = int (length (store h1 (partial_ref R)))
      in
      if max_msg_size r1 \<noteq> 0 \<and> n \<ge> max_msg_size r1
        then Inl (WebSocketError MESSAGE_TOO_BIG (MessageSizeExceedsLimit n (max_msg_size r1)), R1)
      else Inr R1)"

definition object_finish_message ::
  "'z ZLibDecompressor \<Rightarrow> 'z object_reader \<Rightarrow> bool \<Rightarrow> nat option \<Rightarrow> addr \<Rightarrow> bool option
     \<Rightarrow> (error \<times> 'z object_reader) + 'z object_reader" where
  "object_finish_message Z R has_partial opc payload compr =
     (let h = heap R;
          assembled_payload = (if has_partial then store h (partial_ref R) @ store h payload
                               else store h payload);
          R1 = (if has_partial then R\<lparr>heap := h\<lparr>store := (store h)(partial_ref R := [])\<rparr>\<rparr>
                else R);
          n = int (length assembled_payload)
      in
      if max_msg_size (base R1) \<noteq> 0 \<and> n \<ge> max_msg_size (base R1)
        then Inl (WebSocketError MESSAGE_TOO_BIG
                    (MessageSizeExceedsLimit n (max_msg_size (base R1))), R1)
      else
        case decompress_payload Z (base R1) assembled_payload compr of
          Inl (e, r2) \<Rightarrow> Inl (e, R1\<lparr>base := r2\<rparr>)
        | Inr (r2, payload_merged) \<Rightarrow>
            if opc = Some OP_CODE_TEXT then
              case utf8_decode payload_merged of
                None \<Rightarrow> Inl (WebSocketError INVALID_TEXT InvalidUTF8Text, R1\<lparr>base := r2\<rparr>)
              | Some text \<Rightarrow>
                  Inr (R1\<lparr>base := r2,
                          delivered := delivered R1 @ [ByValue (WSMessageText text [])]\<rparr>)
            else
              Inr (R1\<lparr>base := r2,
                      delivered := delivered R1 @ [ByValue (WSMessageBinary payload_merged [])]\<rparr>))"

definition object_close_frame ::
  "'z object_reader \<Rightarrow> bool \<Rightarrow> nat option \<Rightarrow> addr
     \<Rightarrow> (error \<times> 'z object_reader) + 'z object_reader" where
  "object_close_frame R fin opc payload =
     (let data = store (heap R) payload in
      if length data \<ge> 2 then
        let close_code = UNPACK_CLOSE_CODE (take 2 data) in
        if close_code < 3000 \<and> close_code \<notin> ALLOWED_CLOSE_CODES
          then Inl (WebSocketError PROTOCOL_ERROR (InvalidCloseCode close_code), R)
        else
          case utf8_decode (drop 2 data) of
            None \<Rightarrow> Inl (WebSocketError INVALID_TEXT InvalidUTF8Text, R)
          | Some close_message \<Rightarrow>
              Inr (R\<lparr>delivered := delivered R
                                   @ [ByValue (WSMessageClose close_code close_message)]\<rparr>)
      else if data \<noteq> []
        then Inl (WebSocketError PROTOCOL_ERROR (InvalidCloseFrame fin opc data), R)
      else Inr (R\<lparr>delivered := delivered R @ [ByValue (WSMessageClose 0 [])]\<rparr>))"

fun object_handle_frame ::
  "'z ZLibDecompressor \<Rightarrow> 'z object_reader \<Rightarrow> object_frame
     \<Rightarrow> (error \<times> 'z object_reader) + 'z object_reader" where
  "object_handle_frame Z R (fin, opc, payload, compr) =
     (let is_continuation = (opc = Some OP_CODE_CONTINUATION) in
      if opc = Some OP_CODE_TEXT \<or> opc = Some OP_CODE_BINARY \<or> is_continuation then
        if \<not> fin then object_accumulate_partial R opc payload
        else
          let has_partial = (store (heap R) (partial_ref R) \<noteq> []) in
          if is_continuation then
            if opcode (base R) = None
              then Inl (WebSocketError PROTOCOL_ERROR ContinuationForNonStarted, R)
            else object_finish_message Z (R\<lparr>base := (base R)\<lparr>opcode := None\<rparr>\<rparr>)
                   has_partial (opcode (base R)) payload compr
          else if has_partial
            then Inl (WebSocketError PROTOCOL_ERROR (OpcodeExpectedZero opc), R)
          else object_finish_message Z R has_partial opc payload compr
      else if opc = Some OP_CODE_CLOSE then object_close_frame R fin opc payload
      else if opc = Some OP_CODE_PING
        then Inr (R\<lparr>delivered := delivered R @ [PingObject payload]\<rparr>)
      else if opc = Some OP_CODE_PONG
        then Inr (R\<lparr>delivered := delivered R @ [PongObject payload]\<rparr>)
      else Inl (WebSocketError PROTOCOL_ERROR (UnexpectedOpcode opc), R))"

declare object_handle_frame.simps [simp del]

fun object_handle_frames ::
  "'z ZLibDecompressor \<Rightarrow> 'z object_reader \<Rightarrow> object_frame list
     \<Rightarrow> (error \<times> 'z object_reader) + 'z object_reader" where
  "object_handle_frames Z R [] = Inr R"
| "object_handle_frames Z R (frame # frames) =
     (case object_handle_frame Z R frame of
        Inl x \<Rightarrow> Inl x
      | Inr R' \<Rightarrow> object_handle_frames Z R' frames)"

definition object_u_feed_data ::
  "'z ZLibDecompressor \<Rightarrow> 'z object_reader \<Rightarrow> bytes
     \<Rightarrow> (error \<times> 'z object_reader) + 'z object_reader" where
  "object_u_feed_data Z R data =
     (case object_parse_frame R data of
        Inl x \<Rightarrow> Inl x
      | Inr (R', frames) \<Rightarrow> object_handle_frames Z R' frames)"

definition object_feed_data ::
  "'z ZLibDecompressor \<Rightarrow> 'z object_reader \<Rightarrow> bytes \<Rightarrow> 'z object_reader \<times> (bool \<times> bytes)" where
  "object_feed_data Z R data =
     (if exc (base R) \<noteq> None then (R, (True, data))
      else
        case object_u_feed_data Z R data of
          Inl (e, R') \<Rightarrow>
            (R'\<lparr>base := (base R')\<lparr>exc := Some e, queue := set_exception (queue (base R')) e\<rparr>\<rparr>,
             EMPTY_FRAME_ERROR)
        | Inr R' \<Rightarrow> (R', EMPTY_FRAME))"

text \<open>
  Any sequence of calls of \<open>feed_data\<close> and \<open>parse_frame\<close> on one reader. When \<open>parse_frame\<close>
  raises, the reader stays as the raise left it.
\<close>

datatype call = FeedData bytes | ParseFrame bytes

fun object_calls ::
  "'z ZLibDecompressor \<Rightarrow> 'z object_reader \<Rightarrow> call list \<Rightarrow> 'z object_reader" where
  "object_calls Z R [] = R"
| "object_calls Z R (FeedData data # calls) =
     object_calls Z (fst (object_feed_data Z R data)) calls"
| "object_calls Z R (ParseFrame data # calls) =
     object_calls Z (case object_parse_frame R data of
                       Inl (e, R') \<Rightarrow> R'
                     | Inr (R', frames) \<Rightarrow> R') calls"

text \<open>
  The objects a message refers to, the payload object of a frame, and the three
  predicates of the ownership property: an object is \<open>retired\<close> when it is allocated
  and neither attribute of the reader refers to it; a reader is \<open>well_formed\<close> when its
  two attributes refer to two different allocated objects and every object referred to
  by a delivered message is retired; \<open>keeps R R'\<close> when every object retired in \<open>R\<close> is
  retired in \<open>R'\<close> with the same bytes.
\<close>

fun message_refs :: "object_message \<Rightarrow> addr set" where
  "message_refs (ByValue m) = {}"
| "message_refs (PingObject a) = {a}"
| "message_refs (PongObject a) = {a}"

definition frame_ref :: "object_frame \<Rightarrow> addr" where
  "frame_ref f = fst (snd (snd f))"

definition retired :: "'z object_reader \<Rightarrow> addr \<Rightarrow> bool" where
  "retired R a \<longleftrightarrow>
     a < next_addr (heap R) \<and> a \<noteq> frame_payload_ref R \<and> a \<noteq> partial_ref R"

definition well_formed :: "'z object_reader \<Rightarrow> bool" where
  "well_formed R \<longleftrightarrow>
     frame_payload_ref R < next_addr (heap R) \<and> partial_ref R < next_addr (heap R)
     \<and> frame_payload_ref R \<noteq> partial_ref R
     \<and> (\<forall>m \<in> set (delivered R). \<forall>a \<in> message_refs m. retired R a)"

definition keeps :: "'z object_reader \<Rightarrow> 'z object_reader \<Rightarrow> bool" where
  "keeps R R' \<longleftrightarrow>
     (\<forall>a. retired R a \<longrightarrow> retired R' a \<and> store (heap R') a = store (heap R) a)"

definition frames_retired :: "'z object_reader \<Rightarrow> object_frame list \<Rightarrow> bool" where
  "frames_retired R frames \<longleftrightarrow> (\<forall>f \<in> set frames. retired R (frame_ref f))"

definition outcome_ok :: "'z object_reader \<Rightarrow> 'z object_outcome \<Rightarrow> bool" where
  "outcome_ok R x =
     (case x of
        ORaise e R' \<Rightarrow> well_formed R' \<and> keeps R R'
      | OBreak R' rest frames' \<Rightarrow> well_formed R' \<and> keeps R R' \<and> frames_retired R' frames'
      | OGo R' rest frames' \<Rightarrow> well_formed R' \<and> keeps R R' \<and> frames_retired R' frames')"

definition result_ok ::
  "'z object_reader
     \<Rightarrow> (error \<times> 'z object_reader) + ('z object_reader \<times> bytes \<times> object_frame list) \<Rightarrow> bool" where
  "result_ok R x =
     (case x of
        Inl (e, R') \<Rightarrow> well_formed R' \<and> keeps R R'
      | Inr (R', rest, frames') \<Rightarrow> well_formed R' \<and> keeps R R' \<and> frames_retired R' frames')"

definition sum_ok ::
  "'z object_reader \<Rightarrow> (error \<times> 'z object_reader) + 'z object_reader \<Rightarrow> bool" where
  "sum_ok R x =
     (case x of
        Inl (e, R') \<Rightarrow> well_formed R' \<and> keeps R R'
      | Inr R' \<Rightarrow> well_formed R' \<and> keeps R R')"

definition parsed_ok ::
  "'z object_reader
     \<Rightarrow> (error \<times> 'z object_reader) + ('z object_reader \<times> object_frame list) \<Rightarrow> bool" where
  "parsed_ok R x =
     (case x of
        Inl (e, R') \<Rightarrow> well_formed R' \<and> keeps R R'
      | Inr (R', frames') \<Rightarrow> well_formed R' \<and> keeps R R' \<and> frames_retired R' frames')"

definition example_object_reader :: "unit object_reader" where
  "example_object_reader =
     object_calls example_decompressor (object_init empty_queue 0 False)
       [FeedData [0x89, 0x01, 0x41, 0x8A, 0x01]]"

section \<open>Properties\<close>

subsection \<open>Latching\<close>

lemma feed_data_latched: "exc r \<noteq> None \<Longrightarrow> feed_data Z r c = (r, (True, c))"
  by (simp add: feed_data_def)

lemma feed_chunks_latched:
  "exc r \<noteq> None \<Longrightarrow> feed_chunks Z r cs = (r, map (\<lambda>c. (True, c)) cs)"
  by (induction cs) (simp_all add: feed_data_latched)

lemma feed_data_closed_latched:
  "feed_data Z r c = (r', (True, leftover)) \<Longrightarrow> exc r' \<noteq> None"
  by (auto simp: feed_data_def EMPTY_FRAME_ERROR_def EMPTY_FRAME_def
      split: sum.splits prod.splits if_splits)

text \<open>
  Claim C9. Once a call of \<open>feed_data\<close> has returned \<open>closed = True\<close> (it raised a fatal
  error, or one was latched before), any number of further calls, on any chunks,
  return \<open>(True, c)\<close> each for its own chunk \<open>c\<close>, and leave the reader as it was: nothing
  is parsed and the sink receives nothing.
\<close>

theorem C9_idempotent_latching:
  assumes "feed_data Z r c = (r', (True, leftover))"
  shows "feed_chunks Z r' cs = (r', map (\<lambda>c. (True, c)) cs)"
proof -
  from assms have "exc r' \<noteq> None" by (rule feed_data_closed_latched)
  then show ?thesis by (rule feed_chunks_latched)
qed

theorem C9_idempotent_latching_witness:
  "feed_data example_decompressor (init empty_queue 0 True) [0xA1, 0x00]
     = (init empty_queue 0 True
          \<lparr>exc := Some (WebSocketError PROTOCOL_ERROR NonZeroReservedBits),
           queue := set_exception empty_queue (WebSocketError PROTOCOL_ERROR NonZeroReservedBits)\<rparr>,
        (True, []))
   \<and> feed_chunks example_decompressor
        (init empty_queue 0 True
          \<lparr>exc := Some (WebSocketError PROTOCOL_ERROR NonZeroReservedBits),
           queue := set_exception empty_queue (WebSocketError PROTOCOL_ERROR NonZeroReservedBits)\<rparr>)
        [[0x89, 0x00], [0x81, 0x01, 0x41]]
     = (init empty_queue 0 True
          \<lparr>exc := Some (WebSocketError PROTOCOL_ERROR NonZeroReservedBits),
           queue := set_exception empty_queue (WebSocketError PROTOCOL_ERROR NonZeroReservedBits)\<rparr>,
        [(True, [0x89, 0x00]), (True, [0x81, 0x01, 0x41])])"
proof -
  have h: "feed_data example_decompressor (init empty_queue 0 True) [0xA1, 0x00]
     = (init empty_queue 0 True
          \<lparr>exc := Some (WebSocketError PROTOCOL_ERROR NonZeroReservedBits),
           queue := set_exception empty_queue (WebSocketError PROTOCOL_ERROR NonZeroReservedBits)\<rparr>,
        (True, []))"
    by code_simp
  from C9_idempotent_latching [OF h, of "[[0x89, 0x00], [0x81, 0x01, 0x41]]"] h
  show ?thesis by simp
qed

subsection \<open>Decoding a frame header\<close>

text \<open>
  The shifts and masks of the header block, read as bits of the two header bytes.
\<close>

lemma nat_bit_test: "drop_bit n (m :: nat) AND 1 = (if bit m n then 1 else 0)"
  by (simp add: and_one_eq bit_iff_odd_drop_bit mod_2_eq_odd)

lemma header_bit: "drop_bit n (unat (b :: byte)) AND 1 = (if bit b n then 1 else 0)"
  by (simp only: nat_bit_test bit_unsigned_iff) simp

lemma and_15: "(n :: nat) AND 0xF = n mod 16"
proof -
  have "n AND 0xF = n AND mask 4" by (simp add: mask_eq_exp_minus_1)
  also have "\<dots> = take_bit 4 n" by (simp only: take_bit_eq_mask)
  also have "\<dots> = n mod 16" by (simp add: take_bit_eq_mod)
  finally show ?thesis .
qed

lemma and_127: "(n :: nat) AND 0x7F = n mod 128"
proof -
  have "n AND 0x7F = n AND mask 7" by (simp add: mask_eq_exp_minus_1)
  also have "\<dots> = take_bit 7 n" by (simp only: take_bit_eq_mask)
  also have "\<dots> = n mod 128" by (simp add: take_bit_eq_mod)
  finally show ?thesis .
qed

lemma two_bytes:
  "take 2 (b0 # b1 # rest) ! 0 = b0" "take 2 (b0 # b1 # rest) ! 1 = b1"
  "drop 2 (b0 # b1 # rest) = rest" "\<not> length (b0 # b1 # rest) < 2"
  by (simp_all add: numeral_2_eq_2)

lemma read_header_eq:
  assumes "state r = READ_HEADER"
  shows "read_header r (b0 # b1 # rest) frames =
     (if bit b0 5 \<or> bit b0 4 \<or> (bit b0 6 \<and> \<not> compress r)
        then Raise (WebSocketError PROTOCOL_ERROR NonZeroReservedBits) r
      else if 7 < unat b0 mod 16 \<and> \<not> bit b0 7
        then Raise (WebSocketError PROTOCOL_ERROR FragmentedControlFrame) r
      else if 7 < unat b0 mod 16 \<and> 125 < unat b1 mod 128
        then Raise (WebSocketError PROTOCOL_ERROR ControlFrameTooLarge) r
      else if \<not> (frame_fin r \<or> compressed r = None) \<and> bit b0 6
        then Raise (WebSocketError PROTOCOL_ERROR NonZeroReservedBits) r
      else Go (r\<lparr>compressed := (if frame_fin r \<or> compressed r = None
                                 then Some (bit b0 6) else compressed r),
                 frame_fin := bit b0 7, frame_opcode := Some (unat b0 mod 16),
                 has_mask := bit b1 7, payload_length_flag := unat b1 mod 128,
                 state := READ_PAYLOAD_LENGTH\<rparr>) rest frames)"
  apply (simp only: read_header_def Let_def two_bytes header_bit and_15 and_127 assms if_True if_False)
  apply (cases "bit b0 7"; cases "bit b0 6"; cases "bit b0 5"; cases "bit b0 4"; cases "bit b1 7")
  apply (simp_all)
  done

lemma parse_loop_Raise:
  "read_header r buf frames = Raise e r' \<Longrightarrow> parse_loop r buf frames = Inl (e, r')"
  by (simp add: parse_loop.simps loop_body_def and_then_def)

text \<open>
  Claim C8. When the parser decodes a frame header (the loop is in \<open>READ_HEADER\<close> with
  two bytes to read): a set RSV2 or RSV3 bit, or a set RSV1 bit while compression is
  not negotiated, raises the protocol error "non-zero reserved bits"; past that check,
  a control opcode (above 7) without \<open>fin\<close> raises "fragmented control frame"; past
  both, a control opcode with a length flag above 125 raises the protocol error of an
  oversized control frame. Whichever of the three conditions holds, \<open>parse_frame\<close>'s
  loop ends in a \<open>PROTOCOL_ERROR\<close>.
\<close>

theorem C8_header_validation:
  assumes "state r = READ_HEADER"
  shows
    "(bit b0 5 \<or> bit b0 4 \<or> (bit b0 6 \<and> \<not> compress r) \<longrightarrow>
        parse_loop r (b0 # b1 # rest) frames
          = Inl (WebSocketError PROTOCOL_ERROR NonZeroReservedBits, r))
     \<and> (\<not> (bit b0 5 \<or> bit b0 4 \<or> (bit b0 6 \<and> \<not> compress r))
          \<and> 7 < unat b0 mod 16 \<and> \<not> bit b0 7 \<longrightarrow>
        parse_loop r (b0 # b1 # rest) frames
          = Inl (WebSocketError PROTOCOL_ERROR FragmentedControlFrame, r))
     \<and> (\<not> (bit b0 5 \<or> bit b0 4 \<or> (bit b0 6 \<and> \<not> compress r))
          \<and> 7 < unat b0 mod 16 \<and> bit b0 7 \<and> 125 < unat b1 mod 128 \<longrightarrow>
        parse_loop r (b0 # b1 # rest) frames
          = Inl (WebSocketError PROTOCOL_ERROR ControlFrameTooLarge, r))
     \<and> (bit b0 5 \<or> bit b0 4 \<or> (bit b0 6 \<and> \<not> compress r)
          \<or> 7 < unat b0 mod 16 \<and> (\<not> bit b0 7 \<or> 125 < unat b1 mod 128) \<longrightarrow>
        (\<exists>m. parse_loop r (b0 # b1 # rest) frames
                = Inl (WebSocketError PROTOCOL_ERROR m, r)))"
proof -
  note hd = read_header_eq [OF assms, of b0 b1 rest frames]
  have 1: "parse_loop r (b0 # b1 # rest) frames
          = Inl (WebSocketError PROTOCOL_ERROR NonZeroReservedBits, r)"
    if "bit b0 5 \<or> bit b0 4 \<or> (bit b0 6 \<and> \<not> compress r)"
    using that hd by (intro parse_loop_Raise) simp
  have 2: "parse_loop r (b0 # b1 # rest) frames
          = Inl (WebSocketError PROTOCOL_ERROR FragmentedControlFrame, r)"
    if "\<not> (bit b0 5 \<or> bit b0 4 \<or> (bit b0 6 \<and> \<not> compress r))"
       "7 < unat b0 mod 16" "\<not> bit b0 7"
    using that hd by (intro parse_loop_Raise) simp
  have 3: "parse_loop r (b0 # b1 # rest) frames
          = Inl (WebSocketError PROTOCOL_ERROR ControlFrameTooLarge, r)"
    if "\<not> (bit b0 5 \<or> bit b0 4 \<or> (bit b0 6 \<and> \<not> compress r))"
       "7 < unat b0 mod 16" "bit b0 7" "125 < unat b1 mod 128"
    using that hd by (intro parse_loop_Raise) simp
  from 1 2 3 show ?thesis by blast
qed

theorem C8_header_validation_witness:
  "state (init empty_queue 0 False :: unit reader) = READ_HEADER
   \<and> bit (0xC1 :: byte) 6 \<and> \<not> compress (init empty_queue 0 False :: unit reader)
   \<and> parse_loop (init empty_queue 0 False :: unit reader) [0xC1, 0x00] []
       = Inl (WebSocketError PROTOCOL_ERROR NonZeroReservedBits, init empty_queue 0 False)
   \<and> 7 < unat (0x09 :: byte) mod 16 \<and> \<not> bit (0x09 :: byte) 7
   \<and> parse_loop (init empty_queue 0 False :: unit reader) [0x09, 0x00] []
       = Inl (WebSocketError PROTOCOL_ERROR FragmentedControlFrame, init empty_queue 0 False)
   \<and> 7 < unat (0x8A :: byte) mod 16 \<and> bit (0x8A :: byte) 7 \<and> 125 < unat (0x7E :: byte) mod 128
   \<and> parse_loop (init empty_queue 0 False :: unit reader) [0x8A, 0x7E, 0x00, 0x7E] []
       = Inl (WebSocketError PROTOCOL_ERROR ControlFrameTooLarge, init empty_queue 0 False)"
proof -
  have s: "state (init empty_queue 0 False :: unit reader) = READ_HEADER"
    by (simp add: init_def)
  have c: "\<not> compress (init empty_queue 0 False :: unit reader)"
    by (simp add: init_def)
  have b: "bit (0xC1 :: byte) 6" "\<not> bit (0xC1 :: byte) 5" "\<not> bit (0xC1 :: byte) 4"
    "\<not> bit (0x09 :: byte) 7" "\<not> bit (0x09 :: byte) 6" "\<not> bit (0x09 :: byte) 5"
    "\<not> bit (0x09 :: byte) 4" "bit (0x8A :: byte) 7" "\<not> bit (0x8A :: byte) 6"
    "\<not> bit (0x8A :: byte) 5" "\<not> bit (0x8A :: byte) 4"
    by (simp_all add: bit_iff_odd_drop_bit)
  have n: "7 < unat (0x09 :: byte) mod 16" "7 < unat (0x8A :: byte) mod 16"
    "125 < unat (0x7E :: byte) mod 128"
    by simp_all
  from C8_header_validation [OF s, of "0xC1" "0x00" "[]" "[]"]
       C8_header_validation [OF s, of "0x09" "0x00" "[]" "[]"]
       C8_header_validation [OF s, of "0x8A" "0x7E" "[0x00, 0x7E]" "[]"]
       s c b n
  show ?thesis by simp
qed

subsection \<open>What \<open>feed_data\<close> returns\<close>

text \<open>
  Claim C1, as stated, fails: the call that raises returns \<open>EMPTY_FRAME_ERROR\<close>, which
  is \<open>(True, b"")\<close>, not the chunk. The chunk \<open>A1 00\<close> (RSV2 set) raises in the header
  check and \<open>feed_data\<close> returns \<open>(True, [])\<close>.
\<close>

theorem C1_error_leftover_counterexample:
  "isl (u_feed_data example_decompressor (init empty_queue 0 True) [0xA1, 0x00])
   \<and> exc (init empty_queue 0 True :: unit reader) = None
   \<and> snd (feed_data example_decompressor (init empty_queue 0 True) [0xA1, 0x00]) = (True, [])
   \<and> snd (feed_data example_decompressor (init empty_queue 0 True) [0xA1, 0x00])
       \<noteq> (True, [0xA1, 0x00])"
  by code_simp

text \<open>
  Claim C1, amended. On a reader with no latched error: when parsing the chunk raises
  \<open>e\<close>, \<open>feed_data\<close> latches \<open>e\<close> in \<open>exc\<close>, sets it as the exception of the sink, and
  returns \<open>(True, [])\<close>, the empty leftover; when the chunk is parsed without error,
  it returns \<open>(False, [])\<close>.
\<close>

theorem C1_feed_data_result:
  assumes "exc r = None"
  shows
    "(\<forall>e r'. u_feed_data Z r c = Inl (e, r') \<longrightarrow>
        feed_data Z r c
          = (r'\<lparr>exc := Some e, queue := (queue r')\<lparr>exception := Some e\<rparr>\<rparr>, (True, [])))
     \<and> (\<forall>r'. u_feed_data Z r c = Inr r' \<longrightarrow> feed_data Z r c = (r', (False, [])))"
  using assms
  by (simp add: feed_data_def EMPTY_FRAME_ERROR_def EMPTY_FRAME_def set_exception_def)

theorem C1_feed_data_result_witness:
  "exc (init empty_queue 0 True :: unit reader) = None
   \<and> u_feed_data example_decompressor (init empty_queue 0 True) [0xA1, 0x00]
       = Inl (WebSocketError PROTOCOL_ERROR NonZeroReservedBits, init empty_queue 0 True)
   \<and> feed_data example_decompressor (init empty_queue 0 True) [0xA1, 0x00]
       = ((init empty_queue 0 True)
            \<lparr>exc := Some (WebSocketError PROTOCOL_ERROR NonZeroReservedBits),
             queue := empty_queue
               \<lparr>exception := Some (WebSocketError PROTOCOL_ERROR NonZeroReservedBits)\<rparr>\<rparr>,
          (True, []))
   \<and> u_feed_data example_decompressor (init empty_queue 0 True) [0x89, 0x00]
       = Inr ((init empty_queue 0 True)
            \<lparr>queue := empty_queue\<lparr>buffer := [WSMessagePing [] []]\<rparr>,
             frame_fin := True, frame_opcode := Some 9, compressed := Some False\<rparr>)
   \<and> feed_data example_decompressor (init empty_queue 0 True) [0x89, 0x00]
       = ((init empty_queue 0 True)
            \<lparr>queue := empty_queue\<lparr>buffer := [WSMessagePing [] []]\<rparr>,
             frame_fin := True, frame_opcode := Some 9, compressed := Some False\<rparr>,
          (False, []))"
proof -
  have n: "exc (init empty_queue 0 True :: unit reader) = None"
    by (simp add: init_def)
  have e: "u_feed_data example_decompressor (init empty_queue 0 True) [0xA1, 0x00]
       = Inl (WebSocketError PROTOCOL_ERROR NonZeroReservedBits, init empty_queue 0 True)"
    by code_simp
  have g: "u_feed_data example_decompressor (init empty_queue 0 True) [0x89, 0x00]
       = Inr ((init empty_queue 0 True)
            \<lparr>queue := empty_queue\<lparr>buffer := [WSMessagePing [] []]\<rparr>,
             frame_fin := True, frame_opcode := Some 9, compressed := Some False\<rparr>)"
    by code_simp
  have q: "queue (init empty_queue 0 True :: unit reader) = empty_queue"
    by (simp add: init_def)
  from C1_feed_data_result [OF n, of example_decompressor "[0xA1, 0x00]"]
       C1_feed_data_result [OF n, of example_decompressor "[0x89, 0x00]"] n e g q
  show ?thesis by simp
qed

subsection \<open>The compression flag\<close>





subsection \<open>Close frames\<close>




subsection \<open>Data frames: sequencing and the size limit\<close>

text \<open>
  What \<open>handle_frame\<close> does with a data frame, by the \<open>fin\<close> bit and the opcode, and
  what the two size checks and the uncompressed path of \<open>finish_message\<close> compute.
\<close>

lemmas op_codes = OP_CODE_CONTINUATION_def OP_CODE_TEXT_def OP_CODE_BINARY_def
  OP_CODE_CLOSE_def OP_CODE_PING_def OP_CODE_PONG_def

lemma handle_frame_not_fin:
  assumes "opc = Some 0 \<or> opc = Some 1 \<or> opc = Some 2"
  shows "handle_frame Z r (False, opc, payload, compr) = accumulate_partial r opc payload"
  using assms by (auto simp add: handle_frame.simps op_codes)

lemma handle_frame_fin_continuation:
  assumes "opcode r \<noteq> None"
  shows "handle_frame Z r (True, Some 0, payload, compr)
         = finish_message Z (r\<lparr>opcode := None\<rparr>) (partial r \<noteq> []) (opcode r) payload compr"
  using assms by (auto simp add: handle_frame.simps op_codes)

lemma handle_frame_fin_first:
  assumes "opc = Some 1 \<or> opc = Some 2" and "partial r = []"
  shows "handle_frame Z r (True, opc, payload, compr)
         = finish_message Z r False opc payload compr"
  using assms by (auto simp add: handle_frame.simps op_codes)

lemma accumulate_partial_eq:
  "accumulate_partial r opc payload =
     (if max_msg_size r \<noteq> 0 \<and> max_msg_size r \<le> int (length (partial r @ payload))
      then Inl (WebSocketError MESSAGE_TOO_BIG
                  (MessageSizeExceedsLimit (int (length (partial r @ payload))) (max_msg_size r)),
                r\<lparr>opcode := (if opc = Some 0 then opcode r else opc),
                  partial := partial r @ payload\<rparr>)
      else Inr (r\<lparr>opcode := (if opc = Some 0 then opcode r else opc),
                  partial := partial r @ payload\<rparr>))"
  by (simp add: accumulate_partial_def Let_def op_codes)

lemma finish_message_uncompressed:
  assumes "compr \<noteq> Some True" and "hp \<longleftrightarrow> partial r \<noteq> []"
  shows "finish_message Z r hp opc payload compr =
     (if max_msg_size r \<noteq> 0 \<and> max_msg_size r \<le> int (length (partial r @ payload))
      then Inl (WebSocketError MESSAGE_TOO_BIG
                  (MessageSizeExceedsLimit (int (length (partial r @ payload))) (max_msg_size r)),
                r\<lparr>partial := []\<rparr>)
      else if opc = Some 1 then
        (case utf8_decode (partial r @ payload) of
           None \<Rightarrow> Inl (WebSocketError INVALID_TEXT InvalidUTF8Text, r\<lparr>partial := []\<rparr>)
         | Some text \<Rightarrow>
             Inr (r\<lparr>partial := [],
                    queue := queue_feed_data (queue r) (WSMessageText text [])\<rparr>))
      else Inr (r\<lparr>partial := [],
                  queue := queue_feed_data (queue r)
                             (WSMessageBinary (partial r @ payload) [])\<rparr>))"
proof (cases "partial r = []")
  case True
  then have "r\<lparr>partial := []\<rparr> = r" by simp
  with True assms show ?thesis
    by (simp add: finish_message_def decompress_payload_def Let_def op_codes
        split: option.split)
next
  case False
  with assms show ?thesis
    by (simp add: finish_message_def decompress_payload_def Let_def op_codes
        split: option.split)
qed

lemma finish_message_no_size_error:
  assumes "max_msg_size r = 0"
  shows "finish_message Z r hp opc payload compr
         \<noteq> Inl (WebSocketError MESSAGE_TOO_BIG (MessageSizeExceedsLimit k m), r')"
proof -
  have d: "decompress_payload Z r0 a compr
           \<noteq> Inl (WebSocketError MESSAGE_TOO_BIG (MessageSizeExceedsLimit k m), r')" for r0 a
    by (simp add: decompress_payload_def Let_def split: option.split prod.split)
  show ?thesis
  proof (cases "decompress_payload Z (if hp then r\<lparr>partial := []\<rparr> else r)
                  (if hp then partial r @ payload else payload) compr")
    case (Inl x)
    with d [of "if hp then r\<lparr>partial := []\<rparr> else r"
              "if hp then partial r @ payload else payload"] assms
    show ?thesis
      by (cases hp) (auto simp add: finish_message_def Let_def)
  next
    case (Inr y)
    with assms show ?thesis
      by (cases hp; cases y)
         (auto simp add: finish_message_def Let_def split: option.split)
  qed
qed

text \<open>
  Claim C6. With a limit \<open>M > 0\<close>: a data frame without \<open>fin\<close> is accumulated when the
  partial buffer with its payload stays strictly below \<open>M\<close> bytes and raises
  \<open>MESSAGE_TOO_BIG\<close> when it reaches \<open>M\<close> or more; a data frame with \<open>fin\<close> that is in
  sequence (a continuation of a started message, or a first frame with no partial
  data) and not compressed hands the assembled payload on when it is strictly below
  \<open>M\<close> (a binary message is delivered, a text message is delivered when it decodes)
  and raises \<open>MESSAGE_TOO_BIG\<close> when it is \<open>M\<close> bytes or more. With \<open>max_msg_size = 0\<close> no
  data frame, compressed or not, ever raises the size error of these two checks.
\<close>

theorem C6_size_check:
  assumes "opc = Some 0 \<or> opc = Some 1 \<or> opc = Some 2"
  shows
    "(0 < max_msg_size r \<and> int (length (partial r @ payload)) < max_msg_size r \<longrightarrow>
        handle_frame Z r (False, opc, payload, compr)
          = Inr (r\<lparr>opcode := (if opc = Some 0 then opcode r else opc),
                   partial := partial r @ payload\<rparr>))
     \<and> (0 < max_msg_size r \<and> max_msg_size r \<le> int (length (partial r @ payload)) \<longrightarrow>
        (\<exists>r'. handle_frame Z r (False, opc, payload, compr)
           = Inl (WebSocketError MESSAGE_TOO_BIG
                    (MessageSizeExceedsLimit (int (length (partial r @ payload)))
                       (max_msg_size r)), r')))
     \<and> ((opc = Some 0 \<and> opcode r \<noteq> None \<or> opc \<noteq> Some 0 \<and> partial r = [])
          \<and> compr \<noteq> Some True
          \<and> 0 < max_msg_size r \<and> int (length (partial r @ payload)) < max_msg_size r \<longrightarrow>
        handle_frame Z r (True, opc, payload, compr)
          = (if (if opc = Some 0 then opcode r else opc) = Some 1 then
               case utf8_decode (partial r @ payload) of
                 None \<Rightarrow> Inl (WebSocketError INVALID_TEXT InvalidUTF8Text,
                              r\<lparr>opcode := (if opc = Some 0 then None else opcode r),
                                partial := []\<rparr>)
               | Some text \<Rightarrow>
                   Inr (r\<lparr>opcode := (if opc = Some 0 then None else opcode r),
                          partial := [],
                          queue := queue_feed_data (queue r) (WSMessageText text [])\<rparr>)
             else Inr (r\<lparr>opcode := (if opc = Some 0 then None else opcode r),
                         partial := [],
                         queue := queue_feed_data (queue r)
                                    (WSMessageBinary (partial r @ payload) [])\<rparr>)))
     \<and> ((opc = Some 0 \<and> opcode r \<noteq> None \<or> opc \<noteq> Some 0 \<and> partial r = [])
          \<and> compr \<noteq> Some True
          \<and> 0 < max_msg_size r \<and> max_msg_size r \<le> int (length (partial r @ payload)) \<longrightarrow>
        (\<exists>r'. handle_frame Z r (True, opc, payload, compr)
           = Inl (WebSocketError MESSAGE_TOO_BIG
                    (MessageSizeExceedsLimit (int (length (partial r @ payload)))
                       (max_msg_size r)), r')))
     \<and> (max_msg_size r = 0 \<longrightarrow>
        (\<forall>k m r'. handle_frame Z r (fin, opc, payload, compr)
           \<noteq> Inl (WebSocketError MESSAGE_TOO_BIG (MessageSizeExceedsLimit k m), r')))"
proof (intro conjI impI)
  assume "0 < max_msg_size r \<and> int (length (partial r @ payload)) < max_msg_size r"
  then show "handle_frame Z r (False, opc, payload, compr)
          = Inr (r\<lparr>opcode := (if opc = Some 0 then opcode r else opc),
                   partial := partial r @ payload\<rparr>)"
    by (simp only: handle_frame_not_fin [OF assms] accumulate_partial_eq) simp
next
  assume "0 < max_msg_size r \<and> max_msg_size r \<le> int (length (partial r @ payload))"
  then show "\<exists>r'. handle_frame Z r (False, opc, payload, compr)
           = Inl (WebSocketError MESSAGE_TOO_BIG
                    (MessageSizeExceedsLimit (int (length (partial r @ payload)))
                       (max_msg_size r)), r')"
    by (simp only: handle_frame_not_fin [OF assms] accumulate_partial_eq) simp
next
  assume a: "(opc = Some 0 \<and> opcode r \<noteq> None \<or> opc \<noteq> Some 0 \<and> partial r = [])
          \<and> compr \<noteq> Some True
          \<and> 0 < max_msg_size r \<and> int (length (partial r @ payload)) < max_msg_size r"
  show "handle_frame Z r (True, opc, payload, compr)
          = (if (if opc = Some 0 then opcode r else opc) = Some 1 then
               case utf8_decode (partial r @ payload) of
                 None \<Rightarrow> Inl (WebSocketError INVALID_TEXT InvalidUTF8Text,
                              r\<lparr>opcode := (if opc = Some 0 then None else opcode r),
                                partial := []\<rparr>)
               | Some text \<Rightarrow>
                   Inr (r\<lparr>opcode := (if opc = Some 0 then None else opcode r),
                          partial := [],
                          queue := queue_feed_data (queue r) (WSMessageText text [])\<rparr>)
             else Inr (r\<lparr>opcode := (if opc = Some 0 then None else opcode r),
                         partial := [],
                         queue := queue_feed_data (queue r)
                                    (WSMessageBinary (partial r @ payload) [])\<rparr>))"
  proof (cases "opc = Some 0")
    case True
    with a have o: "opcode r \<noteq> None" by simp
    from a True show ?thesis
      by (simp add: handle_frame_fin_continuation [OF o] finish_message_uncompressed
          split: option.split)
  next
    case False
    with a assms have f: "opc = Some 1 \<or> opc = Some 2" and p: "partial r = []" by auto
    from a False p show ?thesis
      by (simp add: handle_frame_fin_first [OF f p] finish_message_uncompressed
          split: option.split)
  qed
next
  assume a: "(opc = Some 0 \<and> opcode r \<noteq> None \<or> opc \<noteq> Some 0 \<and> partial r = [])
          \<and> compr \<noteq> Some True
          \<and> 0 < max_msg_size r \<and> max_msg_size r \<le> int (length (partial r @ payload))"
  show "\<exists>r'. handle_frame Z r (True, opc, payload, compr)
           = Inl (WebSocketError MESSAGE_TOO_BIG
                    (MessageSizeExceedsLimit (int (length (partial r @ payload)))
                       (max_msg_size r)), r')"
  proof (cases "opc = Some 0")
    case True
    with a have o: "opcode r \<noteq> None" by simp
    from a True show ?thesis
      by (simp add: handle_frame_fin_continuation [OF o] finish_message_uncompressed)
  next
    case False
    with a assms have f: "opc = Some 1 \<or> opc = Some 2" and p: "partial r = []" by auto
    from a False p show ?thesis
      by (simp add: handle_frame_fin_first [OF f p] finish_message_uncompressed)
  qed
next
  assume z: "max_msg_size r = 0"
  show "\<forall>k m r'. handle_frame Z r (fin, opc, payload, compr)
           \<noteq> Inl (WebSocketError MESSAGE_TOO_BIG (MessageSizeExceedsLimit k m), r')"
  proof (cases fin)
    case False
    with z show ?thesis
      by (simp add: handle_frame_not_fin [OF assms] accumulate_partial_eq)
  next
    case True
    from assms consider "opc = Some 0" | "opc = Some 1" | "opc = Some 2" by blast
    then show ?thesis
    proof cases
      case 1
      with z True show ?thesis
        by (simp add: handle_frame.simps op_codes Let_def finish_message_no_size_error)
    next
      case 2
      with z True show ?thesis
        by (simp add: handle_frame.simps op_codes Let_def finish_message_no_size_error)
    next
      case 3
      with z True show ?thesis
        by (simp add: handle_frame.simps op_codes Let_def finish_message_no_size_error)
    qed
  qed
qed

theorem C6_size_check_witness:
  "handle_frame example_decompressor (init empty_queue 5 True) (False, Some 2, [1, 2, 3, 4], Some False)
     = Inr ((init empty_queue 5 True)\<lparr>opcode := Some 2, partial := [1, 2, 3, 4]\<rparr>)
   \<and> (\<exists>r'. handle_frame example_decompressor (init empty_queue 5 True)
              (False, Some 2, [1, 2, 3, 4, 5], Some False)
            = Inl (WebSocketError MESSAGE_TOO_BIG (MessageSizeExceedsLimit 5 5), r'))
   \<and> handle_frame example_decompressor (init empty_queue 5 True)
        (True, Some 2, [1, 2, 3, 4], Some False)
     = Inr ((init empty_queue 5 True)
              \<lparr>queue := queue_feed_data empty_queue (WSMessageBinary [1, 2, 3, 4] [])\<rparr>)
   \<and> (\<exists>r'. handle_frame example_decompressor (init empty_queue 5 True)
              (True, Some 2, [1, 2, 3, 4, 5], Some False)
            = Inl (WebSocketError MESSAGE_TOO_BIG (MessageSizeExceedsLimit 5 5), r'))
   \<and> (\<forall>k m r'. handle_frame example_decompressor (init empty_queue 0 True)
              (True, Some 2, [1, 2, 3, 4, 5], Some False)
            \<noteq> Inl (WebSocketError MESSAGE_TOO_BIG (MessageSizeExceedsLimit k m), r'))"
proof -
  let ?R = "init empty_queue 5 True :: unit reader"
  let ?Q = "init empty_queue 0 True :: unit reader"
  have o: "Some (2::nat) = Some 0 \<or> Some (2::nat) = Some 1 \<or> Some (2::nat) = Some 2"
    by simp
  have f: "max_msg_size ?R = 5" "partial ?R = []" "opcode ?R = None" "queue ?R = empty_queue"
    "max_msg_size ?Q = 0"
    by (simp_all add: init_def)
  note C6 = C6_size_check [OF o, where Z = example_decompressor and compr = "Some False"]
  have 1: "handle_frame example_decompressor ?R (False, Some 2, [1, 2, 3, 4], Some False)
     = Inr (?R\<lparr>opcode := Some 2, partial := [1, 2, 3, 4]\<rparr>)"
    using C6 [where r = ?R and payload = "[1, 2, 3, 4]", THEN conjunct1] by (simp add: f)
  have 2: "\<exists>r'. handle_frame example_decompressor ?R
              (False, Some 2, [1, 2, 3, 4, 5], Some False)
            = Inl (WebSocketError MESSAGE_TOO_BIG (MessageSizeExceedsLimit 5 5), r')"
    using C6 [where r = ?R and payload = "[1, 2, 3, 4, 5]", THEN conjunct2, THEN conjunct1]
    by (simp add: f)
  have 3: "handle_frame example_decompressor ?R (True, Some 2, [1, 2, 3, 4], Some False)
     = Inr (?R\<lparr>queue := queue_feed_data empty_queue (WSMessageBinary [1, 2, 3, 4] [])\<rparr>)"
    using C6 [where r = ?R and payload = "[1, 2, 3, 4]",
              THEN conjunct2, THEN conjunct2, THEN conjunct1]
    by (simp add: f)
  have 4: "\<exists>r'. handle_frame example_decompressor ?R
              (True, Some 2, [1, 2, 3, 4, 5], Some False)
            = Inl (WebSocketError MESSAGE_TOO_BIG (MessageSizeExceedsLimit 5 5), r')"
    using C6 [where r = ?R and payload = "[1, 2, 3, 4, 5]",
              THEN conjunct2, THEN conjunct2, THEN conjunct2, THEN conjunct1]
    by (simp add: f)
  have 5: "\<forall>k m r'. handle_frame example_decompressor ?Q
              (True, Some 2, [1, 2, 3, 4, 5], Some False)
            \<noteq> Inl (WebSocketError MESSAGE_TOO_BIG (MessageSizeExceedsLimit k m), r')"
    using C6 [where r = ?Q and payload = "[1, 2, 3, 4, 5]" and fin = True,
              THEN conjunct2, THEN conjunct2, THEN conjunct2, THEN conjunct2]
    by (simp add: f)
  from 1 2 3 4 5 show ?thesis by (simp only: simp_thms)
qed

subsection \<open>Two inputs the reader does not handle as the protocol asks\<close>

text \<open>
  Claim C7 on the code. The sequencing checks of lines 123 to 139 are made for a data
  frame with \<open>fin\<close> only; a frame without \<open>fin\<close> takes the branch of lines 109 to 121
  and leaves the loop body before them. So a text frame without \<open>fin\<close> that arrives
  while a message is being assembled raises nothing: its opcode is recorded and its
  payload accumulated (\<open>01 03 48 65 6C\<close> then \<open>01 02 6C 6F\<close>, the spec's eighth
  scenario). Nor does a continuation frame without \<open>fin\<close> that arrives when no message
  has been started (\<open>00 01 61\<close>).
\<close>

theorem C7_non_fin_frames_not_checked:
  "feed_chunks example_decompressor (init empty_queue 0 True)
     [[0x01, 0x03, 0x48, 0x65, 0x6C], [0x01, 0x02, 0x6C, 0x6F]]
   = ((init empty_queue 0 True)
        \<lparr>partial := [0x48, 0x65, 0x6C, 0x6C, 0x6F], opcode := Some 1, frame_fin := False,
         frame_opcode := Some 1, payload_length_flag := 2, compressed := Some False\<rparr>,
      [(False, []), (False, [])])
   \<and> feed_chunks example_decompressor (init empty_queue 0 True) [[0x00, 0x01, 0x61]]
   = ((init empty_queue 0 True)
        \<lparr>partial := [0x61], opcode := None, frame_fin := False, frame_opcode := Some 0,
         payload_length_flag := 1, compressed := Some False\<rparr>,
      [(False, [])])"
  by code_simp

text \<open>
  Claim C3 on the code. With deflate negotiated, the binary message \<open>Hi\<close> is sent
  compressed (as a stored block) in two fragments, \<open>42 05 00 02 00 FD FF\<close> and
  \<open>80 03 48 69 00\<close>. Fed as they are, the reader delivers the inflated message. With a
  ping \<open>89 00\<close> between the fragments, the header of the continuation frame follows a
  frame with \<open>fin\<close>, \<open>compressed\<close> is set anew from its clear RSV1 bit, and the reader
  delivers the ping and then the eight compressed bytes as they came, not inflated.
\<close>

theorem C3_compressed_message_with_ping:
  "buffer (queue (fst (feed_chunks example_decompressor (init empty_queue 0 True)
     [[0x42, 0x05, 0x00, 0x02, 0x00, 0xFD, 0xFF, 0x80, 0x03, 0x48, 0x69, 0x00]])))
   = [WSMessageBinary [0x48, 0x69] []]
   \<and> buffer (queue (fst (feed_chunks example_decompressor (init empty_queue 0 True)
     [[0x42, 0x05, 0x00, 0x02, 0x00, 0xFD, 0xFF, 0x89, 0x00, 0x80, 0x03, 0x48, 0x69, 0x00]])))
   = [WSMessagePing [] [], WSMessageBinary [0x00, 0x02, 0x00, 0xFD, 0xFF, 0x48, 0x69, 0x00] []]"
  by code_simp

subsection \<open>Chunk boundaries\<close>

text \<open>
  What each block of the loop body does when more bytes follow the buffer: where it
  went on or raised it does the same, and where it stopped for lack of bytes it had
  changed nothing (the payload block had taken what there was).
\<close>

lemma two_or_more: "\<not> length buf < 2 \<Longrightarrow> \<exists>b0 b1 rest. buf = b0 # b1 # rest"
  by (cases buf; simp) (rename_tac a list, case_tac list; simp)

lemma read_header_skip:
  "state r \<noteq> READ_HEADER \<Longrightarrow> read_header r buf frames = Go r buf frames"
  by (simp add: read_header_def)

lemma read_header_short:
  "state r = READ_HEADER \<Longrightarrow> length buf < 2 \<Longrightarrow> read_header r buf frames = Break r buf frames"
  by (simp add: read_header_def)

lemma read_header_full:
  assumes "state r = READ_HEADER"
  shows "(\<exists>e. \<forall>rest frames. read_header r (b0 # b1 # rest) frames = Raise e r)
       \<or> (\<exists>r1. \<forall>rest frames. read_header r (b0 # b1 # rest) frames = Go r1 rest frames)"
proof -
  note eq = read_header_eq [OF assms, of b0 b1]
  consider (a) "bit b0 5 \<or> bit b0 4 \<or> (bit b0 6 \<and> \<not> compress r)"
    | (b) "\<not> (bit b0 5 \<or> bit b0 4 \<or> (bit b0 6 \<and> \<not> compress r))"
          "7 < unat b0 mod 16 \<and> \<not> bit b0 7"
    | (c) "\<not> (bit b0 5 \<or> bit b0 4 \<or> (bit b0 6 \<and> \<not> compress r))"
          "\<not> (7 < unat b0 mod 16 \<and> \<not> bit b0 7)"
          "7 < unat b0 mod 16 \<and> 125 < unat b1 mod 128"
    | (d) "\<not> (bit b0 5 \<or> bit b0 4 \<or> (bit b0 6 \<and> \<not> compress r))"
          "\<not> (7 < unat b0 mod 16 \<and> \<not> bit b0 7)"
          "\<not> (7 < unat b0 mod 16 \<and> 125 < unat b1 mod 128)"
          "\<not> (frame_fin r \<or> compressed r = None) \<and> bit b0 6"
    | (e) "\<not> (bit b0 5 \<or> bit b0 4 \<or> (bit b0 6 \<and> \<not> compress r))"
          "\<not> (7 < unat b0 mod 16 \<and> \<not> bit b0 7)"
          "\<not> (7 < unat b0 mod 16 \<and> 125 < unat b1 mod 128)"
          "\<not> (\<not> (frame_fin r \<or> compressed r = None) \<and> bit b0 6)"
    by blast
  then show ?thesis
  proof cases
    case a
    then have "\<forall>rest frames. read_header r (b0 # b1 # rest) frames
        = Raise (WebSocketError PROTOCOL_ERROR NonZeroReservedBits) r"
      by (simp only: eq if_True simp_thms)
    then show ?thesis by blast
  next
    case b
    then have "\<forall>rest frames. read_header r (b0 # b1 # rest) frames
        = Raise (WebSocketError PROTOCOL_ERROR FragmentedControlFrame) r"
      by (simp only: eq if_True if_False simp_thms)
    then show ?thesis by blast
  next
    case c
    then have "\<forall>rest frames. read_header r (b0 # b1 # rest) frames
        = Raise (WebSocketError PROTOCOL_ERROR ControlFrameTooLarge) r"
      by (simp only: eq if_True if_False simp_thms)
    then show ?thesis by blast
  next
    case d
    then have "\<forall>rest frames. read_header r (b0 # b1 # rest) frames
        = Raise (WebSocketError PROTOCOL_ERROR NonZeroReservedBits) r"
      by (simp only: eq if_True if_False simp_thms)
    then show ?thesis by blast
  next
    case e
    then have "\<forall>rest frames. read_header r (b0 # b1 # rest) frames
        = Go (r\<lparr>compressed := (if frame_fin r \<or> compressed r = None
                                 then Some (bit b0 6) else compressed r),
                 frame_fin := bit b0 7, frame_opcode := Some (unat b0 mod 16),
                 has_mask := bit b1 7, payload_length_flag := unat b1 mod 128,
                 state := READ_PAYLOAD_LENGTH\<rparr>) rest frames"
      by (simp only: eq if_True if_False simp_thms)
    then show ?thesis by blast
  qed
qed

lemma read_header_append:
  "read_header r buf frames = Go r' buf' frames' \<Longrightarrow>
     read_header r (buf @ c) frames = Go r' (buf' @ c) frames'"
  "read_header r buf frames = Raise e r' \<Longrightarrow> read_header r (buf @ c) frames = Raise e r'"
  "read_header r buf frames = Break r' buf' frames' \<Longrightarrow>
     r' = r \<and> buf' = buf \<and> frames' = frames \<and> state r = READ_HEADER"
proof -
  consider (skip) "state r \<noteq> READ_HEADER"
    | (short) "state r = READ_HEADER" "length buf < 2"
    | (full) b0 b1 rest where "state r = READ_HEADER" "buf = b0 # b1 # rest"
    using two_or_more [of buf] by blast
  then have "(read_header r buf frames = Go r' buf' frames' \<longrightarrow>
       read_header r (buf @ c) frames = Go r' (buf' @ c) frames')
     \<and> (read_header r buf frames = Raise e r' \<longrightarrow> read_header r (buf @ c) frames = Raise e r')
     \<and> (read_header r buf frames = Break r' buf' frames' \<longrightarrow>
       r' = r \<and> buf' = buf \<and> frames' = frames \<and> state r = READ_HEADER)"
  proof cases
    case skip
    then show ?thesis by (auto simp add: read_header_skip)
  next
    case short
    then show ?thesis by (auto simp add: read_header_short)
  next
    case full
    have a: "buf @ c = b0 # b1 # (rest @ c)" using full by simp
    from read_header_full [OF full(1), of b0 b1] show ?thesis
      unfolding a full(2) by auto
  qed
  then show
    "read_header r buf frames = Go r' buf' frames' \<Longrightarrow>
       read_header r (buf @ c) frames = Go r' (buf' @ c) frames'"
    "read_header r buf frames = Raise e r' \<Longrightarrow> read_header r (buf @ c) frames = Raise e r'"
    "read_header r buf frames = Break r' buf' frames' \<Longrightarrow>
       r' = r \<and> buf' = buf \<and> frames' = frames \<and> state r = READ_HEADER"
    by blast+
qed

lemma read_payload_length_skip:
  "state r \<noteq> READ_PAYLOAD_LENGTH \<Longrightarrow> read_payload_length r buf frames = Go r buf frames"
  by (simp add: read_payload_length_def)

lemma read_payload_length_append:
  "read_payload_length r buf frames = Go r' buf' frames' \<Longrightarrow>
     read_payload_length r (buf @ c) frames = Go r' (buf' @ c) frames'"
  "read_payload_length r buf frames = Raise e r' \<Longrightarrow>
     read_payload_length r (buf @ c) frames = Raise e r'"
  "read_payload_length r buf frames = Break r' buf' frames' \<Longrightarrow>
     r' = r \<and> buf' = buf \<and> frames' = frames \<and> state r = READ_PAYLOAD_LENGTH"
proof -
  consider (skip) "state r \<noteq> READ_PAYLOAD_LENGTH"
    | (two_short) "state r = READ_PAYLOAD_LENGTH" "payload_length_flag r = 126" "length buf < 2"
    | (two) b0 b1 rest where "state r = READ_PAYLOAD_LENGTH" "payload_length_flag r = 126"
        "buf = b0 # b1 # rest"
    | (eight_short) "state r = READ_PAYLOAD_LENGTH" "payload_length_flag r > 126" "length buf < 8"
    | (eight) "state r = READ_PAYLOAD_LENGTH" "payload_length_flag r > 126" "\<not> length buf < 8"
    | (none) "state r = READ_PAYLOAD_LENGTH" "payload_length_flag r < 126"
    using two_or_more [of buf] by (metis linorder_neqE_nat)
  then have "(read_payload_length r buf frames = Go r' buf' frames' \<longrightarrow>
       read_payload_length r (buf @ c) frames = Go r' (buf' @ c) frames')
     \<and> (read_payload_length r buf frames = Raise e r' \<longrightarrow>
       read_payload_length r (buf @ c) frames = Raise e r')
     \<and> (read_payload_length r buf frames = Break r' buf' frames' \<longrightarrow>
       r' = r \<and> buf' = buf \<and> frames' = frames \<and> state r = READ_PAYLOAD_LENGTH)"
  proof cases
    case skip
    then show ?thesis by (auto simp add: read_payload_length_skip)
  next
    case two_short
    then show ?thesis by (auto simp add: read_payload_length_def)
  next
    case two
    then show ?thesis by (auto simp add: read_payload_length_def Let_def numeral_2_eq_2)
  next
    case eight_short
    then show ?thesis by (auto simp add: read_payload_length_def)
  next
    case eight
    then show ?thesis by (auto simp add: read_payload_length_def Let_def)
  next
    case none
    then show ?thesis by (auto simp add: read_payload_length_def Let_def)
  qed
  then show
    "read_payload_length r buf frames = Go r' buf' frames' \<Longrightarrow>
       read_payload_length r (buf @ c) frames = Go r' (buf' @ c) frames'"
    "read_payload_length r buf frames = Raise e r' \<Longrightarrow>
       read_payload_length r (buf @ c) frames = Raise e r'"
    "read_payload_length r buf frames = Break r' buf' frames' \<Longrightarrow>
       r' = r \<and> buf' = buf \<and> frames' = frames \<and> state r = READ_PAYLOAD_LENGTH"
    by blast+
qed

lemma read_payload_mask_skip:
  "state r \<noteq> READ_PAYLOAD_MASK \<Longrightarrow> read_payload_mask r buf frames = Go r buf frames"
  by (simp add: read_payload_mask_def)

lemma read_payload_mask_append:
  "read_payload_mask r buf frames = Go r' buf' frames' \<Longrightarrow>
     read_payload_mask r (buf @ c) frames = Go r' (buf' @ c) frames'"
  "read_payload_mask r buf frames = Raise e r' \<Longrightarrow>
     read_payload_mask r (buf @ c) frames = Raise e r'"
  "read_payload_mask r buf frames = Break r' buf' frames' \<Longrightarrow>
     r' = r \<and> buf' = buf \<and> frames' = frames \<and> state r = READ_PAYLOAD_MASK"
  by (auto simp add: read_payload_mask_def Let_def split: if_splits)

lemma read_payload_skip:
  "state r \<noteq> READ_PAYLOAD \<Longrightarrow> read_payload r buf frames = Go r buf frames"
  by (simp add: read_payload_def)

lemma read_payload_append:
  "read_payload r buf frames = Go r' buf' frames' \<Longrightarrow>
     read_payload r (buf @ c) frames = Go r' (buf' @ c) frames'"
  "read_payload r buf frames = Raise e r' \<Longrightarrow> read_payload r (buf @ c) frames = Raise e r'"
  "read_payload r buf frames = Break r' buf' frames' \<Longrightarrow>
     buf' = [] \<and> frames' = frames \<and> state r = READ_PAYLOAD \<and> state r' = READ_PAYLOAD
     \<and> read_payload r (buf @ c) frames = read_payload r' c frames"
  by (auto simp add: read_payload_def Let_def split: if_splits)

text \<open>One pass of the loop body on a longer buffer.\<close>

lemma and_then_simps:
  "and_then (Go r buf frames) f = f r buf frames"
  "and_then (Raise e r) f = Raise e r"
  "and_then (Break r buf frames) f = Break r buf frames"
  by (simp_all add: and_then_def)

lemma loop_body_append_Go:
  assumes "loop_body r buf frames = Go r' buf' frames'"
  shows "loop_body r (buf @ c) frames = Go r' (buf' @ c) frames'"
proof -
  from assms obtain r1 b1 f1 r2 b2 f2 r3 b3 f3 where
    h: "read_header r buf frames = Go r1 b1 f1" and
    l: "read_payload_length r1 b1 f1 = Go r2 b2 f2" and
    m: "read_payload_mask r2 b2 f2 = Go r3 b3 f3" and
    p: "read_payload r3 b3 f3 = Go r' buf' frames'"
    unfolding loop_body_def and_then_Go by blast
  show ?thesis
    unfolding loop_body_def
    by (simp only: read_header_append(1) [OF h] read_payload_length_append(1) [OF l]
        read_payload_mask_append(1) [OF m] read_payload_append(1) [OF p] and_then_simps)
qed

lemma and_then_cases:
  obtains (raise) e r' where "x = Raise e r'" "and_then x f = Raise e r'"
    | (break) r' buf' frames' where "x = Break r' buf' frames'"
        "and_then x f = Break r' buf' frames'"
    | (go) r' buf' frames' where "x = Go r' buf' frames'" "and_then x f = f r' buf' frames'"
  by (cases x) (simp_all add: and_then_def)

lemma loop_body_append_Raise:
  assumes "loop_body r buf frames = Raise e r'"
  shows "loop_body r (buf @ c) frames = Raise e r'"
proof (cases "read_header r buf frames")
  case (Raise e1 r1)
  with assms have "e1 = e" "r1 = r'" by (simp_all add: loop_body_def and_then_simps)
  with Raise show ?thesis
    by (simp add: loop_body_def read_header_append(2) and_then_simps)
next
  case (Break r1 b1 f1)
  with assms show ?thesis by (simp add: loop_body_def and_then_simps)
next
  case h: (Go r1 b1 f1)
  note h' = read_header_append(1) [OF h, of c]
  show ?thesis
  proof (cases "read_payload_length r1 b1 f1")
    case (Raise e2 r2)
    with assms h show ?thesis
      by (simp add: loop_body_def h' and_then_simps read_payload_length_append(2))
  next
    case (Break r2 b2 f2)
    with assms h show ?thesis by (simp add: loop_body_def and_then_simps)
  next
    case l: (Go r2 b2 f2)
    note l' = read_payload_length_append(1) [OF l, of c]
    show ?thesis
    proof (cases "read_payload_mask r2 b2 f2")
      case (Raise e3 r3)
      with assms h l show ?thesis
        by (simp add: loop_body_def h' l' and_then_simps read_payload_mask_append(2))
    next
      case (Break r3 b3 f3)
      with assms h l show ?thesis by (simp add: loop_body_def and_then_simps)
    next
      case m: (Go r3 b3 f3)
      note m' = read_payload_mask_append(1) [OF m, of c]
      from assms h l m have "read_payload r3 b3 f3 = Raise e r'"
        by (simp add: loop_body_def and_then_simps)
      from read_payload_append(2) [OF this, of c] show ?thesis
        by (simp add: loop_body_def h' l' m' and_then_simps)
    qed
  qed
qed

lemma loop_body_append_Break:
  assumes "loop_body r buf frames = Break r' buf' frames'"
  shows "frames' = frames \<and> loop_body r (buf @ c) frames = loop_body r' (buf' @ c) frames"
proof (cases "read_header r buf frames")
  case (Raise e1 r1)
  with assms show ?thesis by (simp add: loop_body_def and_then_simps)
next
  case (Break r1 b1 f1)
  with assms have "r1 = r'" "b1 = buf'" "f1 = frames'"
    by (simp_all add: loop_body_def and_then_simps)
  with read_header_append(3) [OF Break] show ?thesis by simp
next
  case h: (Go r1 b1 f1)
  note h' = read_header_append(1) [OF h, of c]
  from read_header_Go [OF h] have f1: "f1 = frames" by simp
  show ?thesis
  proof (cases "read_payload_length r1 b1 f1")
    case (Raise e2 r2)
    with assms h show ?thesis by (simp add: loop_body_def and_then_simps)
  next
    case (Break r2 b2 f2)
    from read_payload_length_append(3) [OF Break]
    have e: "r2 = r1" "b2 = b1" "f2 = f1" and s: "state r1 = READ_PAYLOAD_LENGTH" by simp_all
    from assms h Break e have r: "r' = r1" "buf' = b1" "frames' = f1"
      by (simp_all add: loop_body_def and_then_simps)
    from s have "read_header r1 (b1 @ c) frames = Go r1 (b1 @ c) frames"
      by (simp add: read_header_skip)
    with r f1 h' show ?thesis by (simp add: loop_body_def and_then_simps)
  next
    case l: (Go r2 b2 f2)
    note l' = read_payload_length_append(1) [OF l, of c]
    from read_payload_length_Go [OF l] have f2: "f2 = f1" by simp
    show ?thesis
    proof (cases "read_payload_mask r2 b2 f2")
      case (Raise e3 r3)
      with assms h l show ?thesis by (simp add: loop_body_def and_then_simps)
    next
      case (Break r3 b3 f3)
      from read_payload_mask_append(3) [OF Break]
      have e: "r3 = r2" "b3 = b2" "f3 = f2" and s: "state r2 = READ_PAYLOAD_MASK" by simp_all
      from assms h l Break e have r: "r' = r2" "buf' = b2" "frames' = f2"
        by (simp_all add: loop_body_def and_then_simps)
      from s have "read_header r2 (b2 @ c) frames = Go r2 (b2 @ c) frames"
        "read_payload_length r2 (b2 @ c) frames = Go r2 (b2 @ c) frames"
        by (simp_all add: read_header_skip read_payload_length_skip)
      with r f1 f2 h' l' show ?thesis by (simp add: loop_body_def and_then_simps)
    next
      case m: (Go r3 b3 f3)
      note m' = read_payload_mask_append(1) [OF m, of c]
      from read_payload_mask_Go [OF m] have f3: "f3 = f2" by simp
      from assms h l m have p: "read_payload r3 b3 f3 = Break r' buf' frames'"
        by (simp add: loop_body_def and_then_simps)
      from read_payload_append(3) [OF p, of c]
      have e: "buf' = []" "frames' = f3" and s: "state r' = READ_PAYLOAD"
        and q: "read_payload r3 (b3 @ c) f3 = read_payload r' c f3" by simp_all
      from s have "read_header r' c frames = Go r' c frames"
        "read_payload_length r' c frames = Go r' c frames"
        "read_payload_mask r' c frames = Go r' c frames"
        by (simp_all add: read_header_skip read_payload_length_skip read_payload_mask_skip)
      with e q f1 f2 f3 h' l' m' show ?thesis by (simp add: loop_body_def and_then_simps)
    qed
  qed
qed

lemma parse_loop_append:
  "parse_loop r buf frames = Inr (r', rest, frames') \<Longrightarrow>
     parse_loop r (buf @ c) frames = parse_loop r' (rest @ c) frames'"
proof (induction r buf frames rule: parse_loop.induct)
  case (1 r buf frames)
  show ?case
  proof (cases "loop_body r buf frames")
    case (Raise e r1)
    with "1.prems" show ?thesis by (simp add: parse_loop.simps [of r buf])
  next
    case (Break r1 b1 f1)
    with "1.prems" have e: "r1 = r'" "b1 = rest" "f1 = frames'"
      by (simp_all add: parse_loop.simps [of r buf])
    from loop_body_append_Break [OF Break, of c] e
    have "frames' = frames" "loop_body r (buf @ c) frames = loop_body r' (rest @ c) frames'"
      by simp_all
    then show ?thesis
      by (simp add: parse_loop.simps [of r "buf @ c"] parse_loop.simps [of r' "rest @ c"])
  next
    case (Go r1 b1 f1)
    with "1.prems" have "parse_loop r1 b1 f1 = Inr (r', rest, frames')"
      by (simp add: parse_loop.simps [of r buf])
    from "1.IH" [OF Go this]
    have "parse_loop r1 (b1 @ c) f1 = parse_loop r' (rest @ c) frames'" .
    with loop_body_append_Go [OF Go, of c] show ?thesis
      by (simp add: parse_loop.simps [of r "buf @ c"])
  qed
qed

lemma parse_loop_append_Inl:
  "parse_loop r buf frames = Inl x \<Longrightarrow> parse_loop r (buf @ c) frames = Inl x"
proof (induction r buf frames rule: parse_loop.induct)
  case (1 r buf frames)
  show ?case
  proof (cases "loop_body r buf frames")
    case (Raise e r1)
    with "1.prems" loop_body_append_Raise [OF Raise, of c] show ?thesis
      by (simp add: parse_loop.simps [of r buf] parse_loop.simps [of r "buf @ c"])
  next
    case (Break r1 b1 f1)
    with "1.prems" show ?thesis by (simp add: parse_loop.simps [of r buf])
  next
    case (Go r1 b1 f1)
    with "1.prems" have "parse_loop r1 b1 f1 = Inl x"
      by (simp add: parse_loop.simps [of r buf])
    from "1.IH" [OF Go this] loop_body_append_Go [OF Go, of c] show ?thesis
      by (simp add: parse_loop.simps [of r "buf @ c"])
  qed
qed

text \<open>
  The frames collected so far pass through the loop unread: a pass that starts with
  more of them ends with the same ones in front.
\<close>

definition add_frames :: "frame list \<Rightarrow> 'z outcome \<Rightarrow> 'z outcome" where
  "add_frames fs x =
     (case x of
        Raise e r \<Rightarrow> Raise e r
      | Break r buf frames \<Rightarrow> Break r buf (fs @ frames)
      | Go r buf frames \<Rightarrow> Go r buf (fs @ frames))"

lemma add_frames_simps:
  "add_frames fs (Raise e r) = Raise e r"
  "add_frames fs (Break r buf frames) = Break r buf (fs @ frames)"
  "add_frames fs (Go r buf frames) = Go r buf (fs @ frames)"
  by (simp_all add: add_frames_def)

lemma read_header_frames:
  "read_header r buf (fs @ frames) = add_frames fs (read_header r buf frames)"
  by (simp add: read_header_def Let_def add_frames_simps)

lemma read_payload_length_frames:
  "read_payload_length r buf (fs @ frames) = add_frames fs (read_payload_length r buf frames)"
  by (simp add: read_payload_length_def Let_def add_frames_simps)

lemma read_payload_mask_frames:
  "read_payload_mask r buf (fs @ frames) = add_frames fs (read_payload_mask r buf frames)"
  by (simp add: read_payload_mask_def Let_def add_frames_simps)

lemma read_payload_frames:
  "read_payload r buf (fs @ frames) = add_frames fs (read_payload r buf frames)"
  by (simp add: read_payload_def Let_def add_frames_simps)

lemma and_then_add_frames:
  assumes "\<And>r buf frames. f r buf (fs @ frames) = add_frames fs (f r buf frames)"
  shows "and_then (add_frames fs x) f = add_frames fs (and_then x f)"
  by (cases x) (simp_all add: add_frames_simps and_then_simps assms)

lemma loop_body_frames:
  "loop_body r buf (fs @ frames) = add_frames fs (loop_body r buf frames)"
  by (simp add: loop_body_def read_header_frames
      and_then_add_frames [where f = read_payload_length, OF read_payload_length_frames]
      and_then_add_frames [where f = read_payload_mask, OF read_payload_mask_frames]
      and_then_add_frames [where f = read_payload, OF read_payload_frames])

lemma parse_loop_frames:
  "parse_loop r buf (fs @ frames) =
     (case parse_loop r buf frames of
        Inl x \<Rightarrow> Inl x
      | Inr (r', rest, frames') \<Rightarrow> Inr (r', rest, fs @ frames'))"
proof (induction r buf frames rule: parse_loop.induct)
  case (1 r buf frames)
  show ?case
  proof (cases "loop_body r buf frames")
    case (Raise e r1)
    then show ?thesis
      by (simp add: parse_loop.simps [of r buf] loop_body_frames add_frames_simps)
  next
    case (Break r1 b1 f1)
    then show ?thesis
      by (simp add: parse_loop.simps [of r buf] loop_body_frames add_frames_simps)
  next
    case (Go r1 b1 f1)
    with "1.IH" [OF Go] show ?thesis
      by (simp add: parse_loop.simps [of r buf] loop_body_frames add_frames_simps)
  qed
qed

text \<open>
  The parser neither reads nor writes the fields of the message assembler, the size
  limit, the latched error and (inside the loop) the tail. \<open>with_rest a r\<close> is \<open>r\<close> with
  these fields taken from \<open>a\<close>; the loop on it does what it does on \<open>r\<close>.
\<close>

definition with_rest :: "'z reader \<Rightarrow> 'z reader \<Rightarrow> 'z reader" where
  "with_rest a r =
     r\<lparr>queue := queue a, max_msg_size := max_msg_size a, exc := exc a,
       partial := partial a, opcode := opcode a, tail := tail a,
       decompressobj := decompressobj a\<rparr>"

definition map_outcome :: "('z reader \<Rightarrow> 'z reader) \<Rightarrow> 'z outcome \<Rightarrow> 'z outcome" where
  "map_outcome f x =
     (case x of
        Raise e r \<Rightarrow> Raise e (f r)
      | Break r buf frames \<Rightarrow> Break (f r) buf frames
      | Go r buf frames \<Rightarrow> Go (f r) buf frames)"

lemma map_outcome_simps:
  "map_outcome f (Raise e r) = Raise e (f r)"
  "map_outcome f (Break r buf frames) = Break (f r) buf frames"
  "map_outcome f (Go r buf frames) = Go (f r) buf frames"
  by (simp_all add: map_outcome_def)

lemma read_header_with_rest:
  "read_header (with_rest a r) buf frames = map_outcome (with_rest a) (read_header r buf frames)"
  by (simp add: read_header_def Let_def map_outcome_simps with_rest_def)

lemma read_payload_length_with_rest:
  "read_payload_length (with_rest a r) buf frames
   = map_outcome (with_rest a) (read_payload_length r buf frames)"
  by (simp add: read_payload_length_def Let_def map_outcome_simps with_rest_def)

lemma read_payload_mask_with_rest:
  "read_payload_mask (with_rest a r) buf frames
   = map_outcome (with_rest a) (read_payload_mask r buf frames)"
  by (simp add: read_payload_mask_def Let_def map_outcome_simps with_rest_def)

lemma read_payload_with_rest:
  "read_payload (with_rest a r) buf frames
   = map_outcome (with_rest a) (read_payload r buf frames)"
  by (simp add: read_payload_def Let_def map_outcome_simps with_rest_def)

lemma and_then_map_outcome:
  assumes "\<And>r buf frames. f (g r) buf frames = map_outcome g (f r buf frames)"
  shows "and_then (map_outcome g x) f = map_outcome g (and_then x f)"
  by (cases x) (simp_all add: map_outcome_simps and_then_simps assms)

lemma loop_body_with_rest:
  "loop_body (with_rest a r) buf frames = map_outcome (with_rest a) (loop_body r buf frames)"
  by (simp add: loop_body_def read_header_with_rest
      and_then_map_outcome [where f = read_payload_length, OF read_payload_length_with_rest]
      and_then_map_outcome [where f = read_payload_mask, OF read_payload_mask_with_rest]
      and_then_map_outcome [where f = read_payload, OF read_payload_with_rest])

lemma parse_loop_with_rest:
  "parse_loop (with_rest a r) buf frames =
     (case parse_loop r buf frames of
        Inl (e, r') \<Rightarrow> Inl (e, with_rest a r')
      | Inr (r', rest, frames') \<Rightarrow> Inr (with_rest a r', rest, frames'))"
proof (induction r buf frames rule: parse_loop.induct)
  case (1 r buf frames)
  show ?case
  proof (cases "loop_body r buf frames")
    case (Raise e r1)
    then show ?thesis
      by (simp add: parse_loop.simps [of r buf] parse_loop.simps [of "with_rest a r" buf]
          loop_body_with_rest map_outcome_simps)
  next
    case (Break r1 b1 f1)
    then show ?thesis
      by (simp add: parse_loop.simps [of r buf] parse_loop.simps [of "with_rest a r" buf]
          loop_body_with_rest map_outcome_simps)
  next
    case (Go r1 b1 f1)
    with "1.IH" [OF Go] show ?thesis
      by (simp add: parse_loop.simps [of r buf] parse_loop.simps [of "with_rest a r" buf]
          loop_body_with_rest map_outcome_simps)
  qed
qed

text \<open>
  Frame handling neither reads nor writes the fields of the parser. \<open>with_l2 a x\<close> is
  the parser state of \<open>x\<close> with the assembler fields, the size limit and the latched
  error of \<open>a\<close>; handling a frame on it does what it does on \<open>a\<close>.
\<close>

definition with_l2 :: "'z reader \<Rightarrow> 'z reader \<Rightarrow> 'z reader" where
  "with_l2 a r =
     r\<lparr>queue := queue a, max_msg_size := max_msg_size a, exc := exc a,
       partial := partial a, opcode := opcode a, decompressobj := decompressobj a\<rparr>"

definition lift_l2 ::
  "'z reader \<Rightarrow> (error \<times> 'z reader) + 'z reader \<Rightarrow> (error \<times> 'z reader) + 'z reader" where
  "lift_l2 x res =
     (case res of Inl (e, a') \<Rightarrow> Inl (e, with_l2 a' x) | Inr a' \<Rightarrow> Inr (with_l2 a' x))"

lemma lift_l2_simps:
  "lift_l2 x (Inl (e, a')) = Inl (e, with_l2 a' x)"
  "lift_l2 x (Inr a') = Inr (with_l2 a' x)"
  by (simp_all add: lift_l2_def)

lemma accumulate_partial_with_l2:
  "accumulate_partial (with_l2 a x) opc payload = lift_l2 x (accumulate_partial a opc payload)"
  by (simp add: accumulate_partial_def Let_def lift_l2_simps with_l2_def)

lemma decompress_payload_with_l2:
  "decompress_payload Z (with_l2 a x) assembled compr =
     (case decompress_payload Z a assembled compr of
        Inl (e, a') \<Rightarrow> Inl (e, with_l2 a' x)
      | Inr (a', out) \<Rightarrow> Inr (with_l2 a' x, out))"
proof (cases "compr = Some True")
  case False
  then show ?thesis by (simp add: decompress_payload_def)
next
  case True
  show ?thesis
  proof (cases "decompressobj a")
    case None
    with True show ?thesis
      by (simp add: decompress_payload_def Let_def with_l2_def split: option.split prod.split)
  next
    case (Some z)
    with True show ?thesis
      by (simp add: decompress_payload_def Let_def with_l2_def split: option.split prod.split)
  qed
qed

lemma finish_message_with_l2:
  "finish_message Z (with_l2 a x) hp opc payload compr
   = lift_l2 x (finish_message Z a hp opc payload compr)"
proof -
  define a1 where "a1 = (if hp then a\<lparr>partial := []\<rparr> else a)"
  define asm where "asm = (if hp then partial a @ payload else payload)"
  have p: "(if hp then with_l2 a x\<lparr>partial := []\<rparr> else with_l2 a x) = with_l2 a1 x"
    by (simp add: with_l2_def a1_def)
  have q: "(if hp then partial (with_l2 a x) @ payload else payload) = asm"
    by (simp add: with_l2_def asm_def)
  have m: "max_msg_size (with_l2 b x) = max_msg_size b" "queue (with_l2 b x) = queue b" for b
    by (simp_all add: with_l2_def)
  have u: "with_l2 b x\<lparr>queue := v\<rparr> = with_l2 (b\<lparr>queue := v\<rparr>) x" for b v
    by (simp add: with_l2_def)
  have l: "finish_message Z (with_l2 a x) hp opc payload compr =
     (if max_msg_size a1 \<noteq> 0 \<and> int (length asm) \<ge> max_msg_size a1
        then Inl (WebSocketError MESSAGE_TOO_BIG
                    (MessageSizeExceedsLimit (int (length asm)) (max_msg_size a1)),
                  with_l2 a1 x)
      else
        case decompress_payload Z a1 asm compr of
          Inl (e, a') \<Rightarrow> Inl (e, with_l2 a' x)
        | Inr (r2, payload_merged) \<Rightarrow>
            if opc = Some OP_CODE_TEXT then
              case utf8_decode payload_merged of
                None \<Rightarrow> Inl (WebSocketError INVALID_TEXT InvalidUTF8Text, with_l2 r2 x)
              | Some text \<Rightarrow>
                  Inr (with_l2 (r2\<lparr>queue := queue_feed_data (queue r2) (WSMessageText text [])\<rparr>) x)
            else
              Inr (with_l2 (r2\<lparr>queue := queue_feed_data (queue r2)
                                       (WSMessageBinary payload_merged [])\<rparr>) x))"
    unfolding finish_message_def Let_def p q m decompress_payload_with_l2
    by (cases "decompress_payload Z a1 asm compr") (auto simp add: m u split: option.split)
  have r: "finish_message Z a hp opc payload compr =
     (if max_msg_size a1 \<noteq> 0 \<and> int (length asm) \<ge> max_msg_size a1
        then Inl (WebSocketError MESSAGE_TOO_BIG
                    (MessageSizeExceedsLimit (int (length asm)) (max_msg_size a1)), a1)
      else
        case decompress_payload Z a1 asm compr of
          Inl y \<Rightarrow> Inl y
        | Inr (r2, payload_merged) \<Rightarrow>
            if opc = Some OP_CODE_TEXT then
              case utf8_decode payload_merged of
                None \<Rightarrow> Inl (WebSocketError INVALID_TEXT InvalidUTF8Text, r2)
              | Some text \<Rightarrow>
                  Inr (r2\<lparr>queue := queue_feed_data (queue r2) (WSMessageText text [])\<rparr>)
            else
              Inr (r2\<lparr>queue := queue_feed_data (queue r2)
                             (WSMessageBinary payload_merged [])\<rparr>))"
    unfolding finish_message_def Let_def a1_def asm_def by simp
  show ?thesis
    unfolding l r
    by (cases "decompress_payload Z a1 asm compr")
       (auto simp add: lift_l2_simps split: option.split)
qed

lemma close_frame_with_l2:
  "close_frame (with_l2 a x) fin opc payload = lift_l2 x (close_frame a fin opc payload)"
  by (simp add: close_frame_def Let_def lift_l2_simps with_l2_def split: option.split)

lemma handle_frame_with_l2:
  "handle_frame Z (with_l2 a x) frame = lift_l2 x (handle_frame Z a frame)"
proof -
  obtain fin opc payload compr where f: "frame = (fin, opc, payload, compr)"
    by (cases frame) auto
  have q: "partial (with_l2 a x) = partial a" "opcode (with_l2 a x) = opcode a"
    "queue (with_l2 a x) = queue a"
    by (simp_all add: with_l2_def)
  have u: "with_l2 a x\<lparr>queue := v\<rparr> = with_l2 (a\<lparr>queue := v\<rparr>) x"
    "with_l2 a x\<lparr>opcode := w\<rparr> = with_l2 (a\<lparr>opcode := w\<rparr>) x" for v w
    by (simp_all add: with_l2_def)
  show ?thesis
    unfolding f handle_frame.simps Let_def q u
    by (simp add: accumulate_partial_with_l2 finish_message_with_l2 close_frame_with_l2
        lift_l2_simps)
qed

lemma handle_frames_with_l2:
  "handle_frames Z (with_l2 a x) frames = lift_l2 x (handle_frames Z a frames)"
proof (induction frames arbitrary: a)
  case Nil
  show ?case by (simp add: lift_l2_simps)
next
  case (Cons f frames)
  show ?case
  proof (cases "handle_frame Z a f")
    case (Inl p)
    then show ?thesis
      by (cases p) (simp add: handle_frame_with_l2 lift_l2_simps)
  next
    case (Inr a')
    then show ?thesis
      by (simp add: handle_frame_with_l2 lift_l2_simps Cons.IH)
  qed
qed

lemma with_l2_same: "with_l2 a a = a"
  by (simp add: with_l2_def)

lemma handle_frames_l1:
  "handle_frames Z a frames = Inr a' \<Longrightarrow> with_l2 a' a = a'"
  using handle_frames_with_l2 [of Z a a frames] by (simp add: with_l2_same lift_l2_simps)

lemma handle_frames_append:
  "handle_frames Z r (fs1 @ fs2) =
     (case handle_frames Z r fs1 of Inl x \<Rightarrow> Inl x | Inr r' \<Rightarrow> handle_frames Z r' fs2)"
  by (induction fs1 arbitrary: r) (simp_all split: sum.split)

lemma accumulate_partial_exc:
  "accumulate_partial r opc payload = Inr r' \<Longrightarrow> exc r' = exc r"
  by (auto simp add: accumulate_partial_def Let_def split: if_splits)

lemma decompress_payload_exc:
  "decompress_payload Z r assembled compr = Inr (r', out) \<Longrightarrow> exc r' = exc r"
  by (auto simp add: decompress_payload_def Let_def split: if_splits option.splits)

lemma finish_message_exc:
  assumes "finish_message Z r hp opc payload compr = Inr r'"
  shows "exc r' = exc r"
proof -
  define r1 where "r1 = (if hp then r\<lparr>partial := []\<rparr> else r)"
  define asm where "asm = (if hp then partial r @ payload else payload)"
  have e: "exc r1 = exc r" by (simp add: r1_def)
  from assms obtain r2 out where d: "decompress_payload Z r1 asm compr = Inr (r2, out)"
    and "exc r' = exc r2"
    unfolding finish_message_def Let_def r1_def [symmetric] asm_def [symmetric]
    by (auto split: if_splits sum.splits option.splits)
  with decompress_payload_exc [OF d] e show ?thesis by simp
qed

lemma close_frame_exc:
  "close_frame r fin opc payload = Inr r' \<Longrightarrow> exc r' = exc r"
  by (auto simp add: close_frame_def Let_def split: if_splits option.splits)

lemma handle_frame_exc:
  assumes "handle_frame Z r frame = Inr r'"
  shows "exc r' = exc r"
proof -
  obtain fin opc payload compr where f: "frame = (fin, opc, payload, compr)"
    by (cases frame) auto
  from assms show ?thesis
    unfolding f handle_frame.simps Let_def
    by (auto split: if_splits
        dest: accumulate_partial_exc finish_message_exc close_frame_exc)
qed

lemma handle_frames_exc:
  "handle_frames Z r frames = Inr r' \<Longrightarrow> exc r' = exc r"
proof (induction frames arbitrary: r)
  case Nil
  then show ?case by simp
next
  case (Cons f frames)
  then show ?case
    by (auto split: sum.splits dest: handle_frame_exc)
qed

lemma with_rest_same: "with_rest a a = a"
  by (simp add: with_rest_def)

lemma parse_loop_keeps:
  assumes "parse_loop r buf frames = Inr (r', rest, frames')"
  shows "with_rest r r' = r'"
  using parse_loop_with_rest [of r r buf frames] assms by (simp add: with_rest_same)

lemma parse_loop_tail:
  assumes "parse_loop r buf frames = Inr (r', rest, frames')"
  shows "tail r' = tail r"
proof -
  have "tail (with_rest r r') = tail r" by (simp add: with_rest_def)
  with parse_loop_keeps [OF assms] show ?thesis by simp
qed

lemma parse_frame_Inr:
  "parse_frame r buf = Inr (p, fs) \<longleftrightarrow>
     (\<exists>q rest. parse_loop (r\<lparr>tail := []\<rparr>) (tail r @ buf) [] = Inr (q, rest, fs)
        \<and> p = q\<lparr>tail := rest\<rparr>)"
  by (auto simp add: parse_frame_def split: sum.splits)

lemma parse_frame_Inl:
  "parse_frame r buf = Inl x \<longleftrightarrow> parse_loop (r\<lparr>tail := []\<rparr>) (tail r @ buf) [] = Inl x"
  by (auto simp add: parse_frame_def split: sum.splits)

lemma parse_frame_append:
  assumes "parse_frame r c1 = Inr (p1, fs1)"
  shows "parse_frame r (c1 @ c2) =
     (case parse_frame p1 c2 of
        Inl x \<Rightarrow> Inl x
      | Inr (p2, fs2) \<Rightarrow> Inr (p2, fs1 @ fs2))"
proof -
  from assms obtain q1 rest1 where
    l: "parse_loop (r\<lparr>tail := []\<rparr>) (tail r @ c1) [] = Inr (q1, rest1, fs1)"
    and p1: "p1 = q1\<lparr>tail := rest1\<rparr>"
    unfolding parse_frame_Inr by blast
  from parse_loop_tail [OF l] have t: "tail q1 = []" by simp
  then have q: "p1\<lparr>tail := []\<rparr> = q1" "tail p1 = rest1"
    by (simp_all add: p1)
  have "parse_loop (r\<lparr>tail := []\<rparr>) (tail r @ c1 @ c2) []
        = parse_loop q1 (rest1 @ c2) (fs1 @ [])"
    using parse_loop_append [OF l, of c2] by simp
  also have "\<dots> = (case parse_loop q1 (rest1 @ c2) [] of
        Inl x \<Rightarrow> Inl x
      | Inr (r', rest, frames') \<Rightarrow> Inr (r', rest, fs1 @ frames'))"
    by (rule parse_loop_frames)
  finally show ?thesis
    by (simp add: parse_frame_def q split: sum.split prod.split)
qed

lemma parse_frame_append_Inl:
  assumes "parse_frame r c1 = Inl x"
  shows "parse_frame r (c1 @ c2) = Inl x"
proof -
  from assms have "parse_loop (r\<lparr>tail := []\<rparr>) (tail r @ c1) [] = Inl x"
    by (simp add: parse_frame_Inl)
  from parse_loop_append_Inl [OF this, of c2] show ?thesis
    by (simp add: parse_frame_Inl)
qed

lemma parse_frame_with_l2:
  "parse_frame (with_l2 a r) buf =
     (case parse_frame r buf of
        Inl (e, r') \<Rightarrow> Inl (e, with_l2 a r')
      | Inr (r', fs) \<Rightarrow> Inr (with_l2 a r', fs))"
proof -
  have 1: "with_l2 a r\<lparr>tail := []\<rparr> = with_rest (a\<lparr>tail := []\<rparr>) (r\<lparr>tail := []\<rparr>)"
    by (simp add: with_l2_def with_rest_def)
  have 2: "tail (with_l2 a r) = tail r" by (simp add: with_l2_def)
  have 3: "with_rest (a\<lparr>tail := []\<rparr>) q\<lparr>tail := t\<rparr> = with_l2 a (q\<lparr>tail := t\<rparr>)" for q t
    by (simp add: with_l2_def with_rest_def)
  have 4: "tail q = [] \<Longrightarrow> with_rest (a\<lparr>tail := []\<rparr>) q = with_l2 a q" for q
    by (simp add: with_l2_def with_rest_def)
  show ?thesis
  proof (cases "parse_loop (r\<lparr>tail := []\<rparr>) (tail r @ buf) []")
    case (Inl x)
    obtain e r' where x: "x = (e, r')" by (cases x)
    have "with_rest (r\<lparr>tail := []\<rparr>) r' = r'"
      using parse_loop_with_rest [of "r\<lparr>tail := []\<rparr>" "r\<lparr>tail := []\<rparr>" "tail r @ buf" "[]"]
        Inl x
      by (simp add: with_rest_same)
    then have "tail r' = tail (with_rest (r\<lparr>tail := []\<rparr>) r')" by simp
    also have "\<dots> = []" by (simp add: with_rest_def)
    finally have "tail r' = []" .
    have "parse_frame (with_l2 a r) buf = Inl (e, with_rest (a\<lparr>tail := []\<rparr>) r')"
      unfolding parse_frame_def 1 2 parse_loop_with_rest Inl x by simp
    moreover have "parse_frame r buf = Inl (e, r')"
      unfolding parse_frame_def Inl x by simp
    ultimately show ?thesis
      using \<open>tail r' = []\<close> by (simp add: 4)
  next
    case (Inr y)
    obtain q rest fs where y: "y = (q, rest, fs)" by (cases y)
    have "parse_frame (with_l2 a r) buf = Inr ((with_rest (a\<lparr>tail := []\<rparr>) q)\<lparr>tail := rest\<rparr>, fs)"
      unfolding parse_frame_def 1 2 parse_loop_with_rest Inr y by simp
    moreover have "parse_frame r buf = Inr (q\<lparr>tail := rest\<rparr>, fs)"
      unfolding parse_frame_def Inr y by simp
    ultimately show ?thesis
      by (simp add: 3)
  qed
qed

lemma parse_frame_l2:
  assumes "parse_frame r buf = Inr (r', fs)"
  shows "with_l2 r r' = r'"
  using parse_frame_with_l2 [of r r buf] assms by (simp add: with_l2_same)

lemma u_feed_data_Inr:
  "u_feed_data Z r c = Inr ra \<longleftrightarrow>
     (\<exists>p fs. parse_frame r c = Inr (p, fs) \<and> handle_frames Z p fs = Inr ra)"
  by (auto simp add: u_feed_data_def split: sum.splits)

lemma u_feed_data_append:
  assumes "u_feed_data Z r c1 = Inr ra"
  shows "u_feed_data Z r (c1 @ c2) = Inr rb \<longleftrightarrow> u_feed_data Z ra c2 = Inr rb"
proof -
  from assms obtain p1 fs1 where p: "parse_frame r c1 = Inr (p1, fs1)"
    and h: "handle_frames Z p1 fs1 = Inr ra"
    unfolding u_feed_data_Inr by blast
  from handle_frames_l1 [OF h] have ra: "ra = with_l2 ra p1" by simp
  note a = parse_frame_append [OF p, of c2]
  have b: "parse_frame ra c2 =
     (case parse_frame p1 c2 of
        Inl (e, r') \<Rightarrow> Inl (e, with_l2 ra r')
      | Inr (r', fs) \<Rightarrow> Inr (with_l2 ra r', fs))"
    using parse_frame_with_l2 [of ra p1 c2] ra by simp
  show ?thesis
  proof (cases "parse_frame p1 c2")
    case (Inl x)
    obtain e r' where "x = (e, r')" by (cases x)
    with Inl a b show ?thesis by (simp add: u_feed_data_def)
  next
    case (Inr y)
    obtain p2 fs2 where y: "y = (p2, fs2)" by (cases y)
    from parse_frame_l2 [of p1 c2 p2 fs2] Inr y have "with_l2 p1 p2 = p2" by simp
    with handle_frames_with_l2 [of Z p1 p2 fs1] h
    have "handle_frames Z p2 fs1 = Inr (with_l2 ra p2)" by (simp add: lift_l2_simps)
    with Inr y a b show ?thesis
      by (simp add: u_feed_data_def handle_frames_append)
  qed
qed

lemma u_feed_data_append_Inl:
  assumes "u_feed_data Z r c1 = Inl x"
  shows "\<exists>y. u_feed_data Z r (c1 @ c2) = Inl y"
proof (cases "parse_frame r c1")
  case (Inl e)
  from parse_frame_append_Inl [OF Inl, of c2] show ?thesis
    by (simp add: u_feed_data_def)
next
  case (Inr y)
  obtain p1 fs1 where y: "y = (p1, fs1)" by (cases y)
  with Inr assms have h: "handle_frames Z p1 fs1 = Inl x"
    by (simp add: u_feed_data_def)
  note a = parse_frame_append [OF Inr [unfolded y], of c2]
  show ?thesis
  proof (cases "parse_frame p1 c2")
    case (Inl e)
    with a show ?thesis by (simp add: u_feed_data_def)
  next
    case r: (Inr z)
    obtain p2 fs2 where z: "z = (p2, fs2)" by (cases z)
    obtain e q where x: "x = (e, q)" by (cases x)
    from parse_frame_l2 [of p1 c2 p2 fs2] r z have "with_l2 p1 p2 = p2" by simp
    with handle_frames_with_l2 [of Z p1 p2 fs1] h x
    have "handle_frames Z p2 fs1 = Inl (e, with_l2 q p2)" by (simp add: lift_l2_simps)
    with r z a show ?thesis
      by (simp add: u_feed_data_def handle_frames_append)
  qed
qed

lemma u_feed_data_exc:
  assumes "u_feed_data Z r c = Inr ra"
  shows "exc ra = exc r"
proof -
  from assms obtain p fs where p: "parse_frame r c = Inr (p, fs)"
    and h: "handle_frames Z p fs = Inr ra"
    unfolding u_feed_data_Inr by blast
  have "exc (with_l2 r p) = exc r" by (simp add: with_l2_def)
  with parse_frame_l2 [OF p] handle_frames_exc [OF h] show ?thesis by simp
qed

lemma feed_data_ok:
  "exc r = None \<Longrightarrow> u_feed_data Z r c = Inr ra \<Longrightarrow> feed_data Z r c = (ra, (False, []))"
  by (simp add: feed_data_def EMPTY_FRAME_def)

lemma feed_data_not_ok:
  "exc r = None \<Longrightarrow> u_feed_data Z r c = Inl x \<Longrightarrow> exc (fst (feed_data Z r c)) \<noteq> None"
  by (cases x) (simp add: feed_data_def)

text \<open>A reader is at rest when an empty chunk leaves it as it is.\<close>

lemma feed_chunks_whole:
  assumes "exc r = None" and "u_feed_data Z r [] = Inr r"
    and "exc (fst (feed_chunks Z r cs)) = None"
  shows "u_feed_data Z r (concat cs) = Inr (fst (feed_chunks Z r cs))
         \<and> snd (feed_chunks Z r cs) = map (\<lambda>c. (False, [])) cs"
  using assms
proof (induction cs arbitrary: r)
  case Nil
  then show ?case by simp
next
  case (Cons c cs)
  show ?case
  proof (cases "u_feed_data Z r c")
    case (Inl x)
    from feed_data_not_ok [OF Cons.prems(1) Inl]
    have "exc (fst (feed_chunks Z r (c # cs))) \<noteq> None"
      by (cases "feed_data Z r c") (simp add: feed_chunks_latched)
    with Cons.prems(3) show ?thesis by simp
  next
    case (Inr ra)
    note f = feed_data_ok [OF Cons.prems(1) Inr]
    from u_feed_data_exc [OF Inr] Cons.prems(1) have e: "exc ra = None" by simp
    from u_feed_data_append [OF Inr, of "[]" ra] Inr have q: "u_feed_data Z ra [] = Inr ra"
      by simp
    from Cons.prems(3) f have n: "exc (fst (feed_chunks Z ra cs)) = None"
      by (simp split: prod.splits)
    from Cons.IH [OF e q n] u_feed_data_append [OF Inr, of "concat cs"] f
    show ?thesis by (auto split: prod.splits)
  qed
qed

lemma feed_chunks_parts:
  assumes "exc r = None" and "u_feed_data Z r [] = Inr r"
    and "u_feed_data Z r (concat cs) = Inr r'"
  shows "feed_chunks Z r cs = (r', map (\<lambda>c. (False, [])) cs)"
  using assms
proof (induction cs arbitrary: r)
  case Nil
  then show ?case by simp
next
  case (Cons c cs)
  show ?case
  proof (cases "u_feed_data Z r c")
    case (Inl x)
    from u_feed_data_append_Inl [OF Inl, of "concat cs"] Cons.prems(3)
    show ?thesis by simp
  next
    case (Inr ra)
    note f = feed_data_ok [OF Cons.prems(1) Inr]
    from u_feed_data_exc [OF Inr] Cons.prems(1) have e: "exc ra = None" by simp
    from u_feed_data_append [OF Inr, of "[]" ra] Inr have q: "u_feed_data Z ra [] = Inr ra"
      by simp
    from u_feed_data_append [OF Inr, of "concat cs" r'] Cons.prems(3)
    have "u_feed_data Z ra (concat cs) = Inr r'" by simp
    from Cons.IH [OF e q this] f show ?thesis by simp
  qed
qed

lemma init_at_rest: "u_feed_data Z (init q m c) [] = Inr (init q m c)"
  by (simp add: u_feed_data_def parse_frame_def init_def parse_loop.simps loop_body_def
      read_header_def and_then_simps)

lemma init_exc: "exc (init q m c) = None"
  by (simp add: init_def)

text \<open>
  Claim C2, as stated, fails. \<open>parse_frame\<close> parses a whole chunk before any of its
  frames is handled, so an error in a later header of the chunk is raised before the
  frames in front of it deliver anything. The stream \<open>89 00 81 01 FF A1 00\<close> (a ping, a
  text frame that is not UTF-8, a header with RSV2 set) fed as one chunk delivers
  nothing and raises the protocol error of the third frame; cut after the fifth byte
  it delivers the ping and raises \<open>INVALID_TEXT\<close> for the second frame.
\<close>

theorem C2_chunk_boundary_counterexample:
  "concat [[0x89, 0x00, 0x81, 0x01, 0xFF, 0xA1, 0x00]]
     = concat [[0x89, 0x00, 0x81, 0x01, 0xFF], [0xA1, 0x00 :: byte]]
   \<and> buffer (queue (fst (feed_chunks example_decompressor (init empty_queue 0 True)
        [[0x89, 0x00, 0x81, 0x01, 0xFF, 0xA1, 0x00]]))) = []
   \<and> exc (fst (feed_chunks example_decompressor (init empty_queue 0 True)
        [[0x89, 0x00, 0x81, 0x01, 0xFF, 0xA1, 0x00]]))
       = Some (WebSocketError PROTOCOL_ERROR NonZeroReservedBits)
   \<and> buffer (queue (fst (feed_chunks example_decompressor (init empty_queue 0 True)
        [[0x89, 0x00, 0x81, 0x01, 0xFF], [0xA1, 0x00]]))) = [WSMessagePing [] []]
   \<and> exc (fst (feed_chunks example_decompressor (init empty_queue 0 True)
        [[0x89, 0x00, 0x81, 0x01, 0xFF], [0xA1, 0x00]]))
       = Some (WebSocketError INVALID_TEXT InvalidUTF8Text)"
  by code_simp

text \<open>
  Claim C2, amended. For every byte stream and every two ways of cutting it into
  chunks: if feeding the chunks of one of them to a freshly created reader raises no
  error, then feeding the chunks of the other raises none either (every call returns
  \<open>(False, [])\<close>) and leaves the reader in the same state, with the same messages
  delivered to the sink in the same order.
\<close>

theorem C2_chunk_boundary_invariance:
  assumes "concat cs1 = concat cs2"
    and "exc (fst (feed_chunks Z (init q m c) cs1)) = None"
  shows "feed_chunks Z (init q m c) cs2
         = (fst (feed_chunks Z (init q m c) cs1), map (\<lambda>c. (False, [])) cs2)"
proof -
  from feed_chunks_whole [OF init_exc init_at_rest assms(2)]
  have "u_feed_data Z (init q m c) (concat cs1) = Inr (fst (feed_chunks Z (init q m c) cs1))"
    by simp
  with assms(1) have "u_feed_data Z (init q m c) (concat cs2)
      = Inr (fst (feed_chunks Z (init q m c) cs1))"
    by simp
  from feed_chunks_parts [OF init_exc init_at_rest this] show ?thesis .
qed

theorem C2_chunk_boundary_invariance_witness:
  "concat [[0x01, 0x03, 0x48, 0x65, 0x6C, 0x80, 0x02, 0x6C, 0x6F]]
     = concat [[0x01], [0x03, 0x48], [], [0x65, 0x6C, 0x80], [0x02, 0x6C, 0x6F :: byte]]
   \<and> exc (fst (feed_chunks example_decompressor (init empty_queue 0 True)
        [[0x01, 0x03, 0x48, 0x65, 0x6C, 0x80, 0x02, 0x6C, 0x6F]])) = None
   \<and> buffer (queue (fst (feed_chunks example_decompressor (init empty_queue 0 True)
        [[0x01, 0x03, 0x48, 0x65, 0x6C, 0x80, 0x02, 0x6C, 0x6F]])))
       = [WSMessageText [0x48, 0x65, 0x6C, 0x6C, 0x6F] []]
   \<and> feed_chunks example_decompressor (init empty_queue 0 True)
        [[0x01], [0x03, 0x48], [], [0x65, 0x6C, 0x80], [0x02, 0x6C, 0x6F]]
       = (fst (feed_chunks example_decompressor (init empty_queue 0 True)
            [[0x01, 0x03, 0x48, 0x65, 0x6C, 0x80, 0x02, 0x6C, 0x6F]]),
          [(False, []), (False, []), (False, []), (False, []), (False, [])])"
proof -
  have 1: "concat [[0x01, 0x03, 0x48, 0x65, 0x6C, 0x80, 0x02, 0x6C, 0x6F]]
     = concat [[0x01], [0x03, 0x48], [], [0x65, 0x6C, 0x80], [0x02, 0x6C, 0x6F :: byte]]"
    by simp
  have 2: "exc (fst (feed_chunks example_decompressor (init empty_queue 0 True)
        [[0x01, 0x03, 0x48, 0x65, 0x6C, 0x80, 0x02, 0x6C, 0x6F]])) = None"
    by code_simp
  have 3: "buffer (queue (fst (feed_chunks example_decompressor (init empty_queue 0 True)
        [[0x01, 0x03, 0x48, 0x65, 0x6C, 0x80, 0x02, 0x6C, 0x6F]])))
       = [WSMessageText [0x48, 0x65, 0x6C, 0x6C, 0x6F] []]"
    by code_simp
  from C2_chunk_boundary_invariance [OF 1 2]
  have 4: "feed_chunks example_decompressor (init empty_queue 0 True)
        [[0x01], [0x03, 0x48], [], [0x65, 0x6C, 0x80], [0x02, 0x6C, 0x6F]]
       = (fst (feed_chunks example_decompressor (init empty_queue 0 True)
            [[0x01, 0x03, 0x48, 0x65, 0x6C, 0x80, 0x02, 0x6C, 0x6F]]),
          [(False, []), (False, []), (False, []), (False, []), (False, [])])"
    by simp
  from 1 2 3 4 show ?thesis by (intro conjI)
qed

subsection \<open>Payload objects\<close>

lemma keeps_refl: "keeps R R"
  by (simp add: keeps_def)

lemma keeps_trans: "keeps R R' \<Longrightarrow> keeps R' R'' \<Longrightarrow> keeps R R''"
  by (simp add: keeps_def)

lemma keeps_base: "keeps R R' \<Longrightarrow> keeps R (R'\<lparr>base := r\<rparr>)"
  by (simp add: keeps_def retired_def)

lemma keeps_base_left: "keeps (R\<lparr>base := r\<rparr>) R' \<Longrightarrow> keeps R R'"
  by (simp add: keeps_def retired_def)

lemma well_formed_base: "well_formed (R\<lparr>base := r\<rparr>) = well_formed R"
  by (simp add: well_formed_def retired_def)

lemma retired_base: "retired (R\<lparr>base := r\<rparr>) a = retired R a"
  by (simp add: retired_def)

lemma frames_retired_base: "frames_retired (R\<lparr>base := r\<rparr>) frames = frames_retired R frames"
  by (simp add: frames_retired_def retired_base)

lemma frames_retired_keeps:
  "keeps R R' \<Longrightarrow> frames_retired R frames \<Longrightarrow> frames_retired R' frames"
  by (simp add: frames_retired_def keeps_def)

lemma object_block_ok:
  assumes "well_formed R" and "frames_retired R frames"
  shows "outcome_ok R (object_block block R buf frames)"
  using assms
  by (cases "block (base R) buf []")
     (simp_all add: object_block_def outcome_ok_def well_formed_base keeps_base keeps_refl
        frames_retired_base)

lemma object_read_payload_ok:
  assumes "well_formed R" and "frames_retired R frames"
  shows "outcome_ok R (object_read_payload R buf frames)"
  using assms
  by (auto simp add: object_read_payload_def Let_def outcome_ok_def well_formed_def keeps_def
        retired_def frames_retired_def frame_ref_def bytearray_extend_def new_bytearray_def
        less_Suc_eq
      split: if_splits)

lemma object_and_then_ok:
  assumes "outcome_ok R x"
    and "\<And>R1 buf1 frames1. x = OGo R1 buf1 frames1 \<Longrightarrow> outcome_ok R1 (f R1 buf1 frames1)"
  shows "outcome_ok R (object_and_then x f)"
proof (cases x)
  case (OGo R1 buf1 frames1)
  with assms(1) have k: "keeps R R1" by (simp add: outcome_ok_def)
  from assms(2) [OF OGo] have "outcome_ok R1 (f R1 buf1 frames1)" .
  with k have "outcome_ok R (f R1 buf1 frames1)"
    by (cases "f R1 buf1 frames1") (auto simp add: outcome_ok_def intro: keeps_trans)
  with OGo show ?thesis by (simp add: object_and_then_def)
next
  case (ORaise e R1)
  with assms(1) show ?thesis by (simp add: object_and_then_def)
next
  case (OBreak R1 buf1 frames1)
  with assms(1) show ?thesis by (simp add: object_and_then_def)
qed

lemma outcome_ok_OGo:
  "outcome_ok R (OGo R1 buf1 frames1) \<Longrightarrow> well_formed R1 \<and> frames_retired R1 frames1"
  by (simp add: outcome_ok_def)

lemma object_loop_body_ok:
  assumes "well_formed R" and "frames_retired R frames"
  shows "outcome_ok R (object_loop_body R buf frames)"
proof -
  have 1: "outcome_ok R (object_block read_header R buf frames)"
    using assms by (rule object_block_ok)
  have 2: "outcome_ok R (object_and_then (object_block read_header R buf frames)
             (object_block read_payload_length))"
    using 1
  proof (rule object_and_then_ok)
    fix R1 buf1 frames1
    assume "object_block read_header R buf frames = OGo R1 buf1 frames1"
    with 1 have "well_formed R1 \<and> frames_retired R1 frames1"
      by (simp add: outcome_ok_OGo)
    then show "outcome_ok R1 (object_block read_payload_length R1 buf1 frames1)"
      by (simp add: object_block_ok)
  qed
  have 3: "outcome_ok R (object_and_then (object_and_then (object_block read_header R buf frames)
             (object_block read_payload_length)) (object_block read_payload_mask))"
    using 2
  proof (rule object_and_then_ok)
    fix R1 buf1 frames1
    assume "object_and_then (object_block read_header R buf frames)
              (object_block read_payload_length) = OGo R1 buf1 frames1"
    with 2 have "well_formed R1 \<and> frames_retired R1 frames1"
      by (simp add: outcome_ok_OGo)
    then show "outcome_ok R1 (object_block read_payload_mask R1 buf1 frames1)"
      by (simp add: object_block_ok)
  qed
  show ?thesis
    unfolding object_loop_body_def
    using 3
  proof (rule object_and_then_ok)
    fix R1 buf1 frames1
    assume "object_and_then (object_and_then (object_block read_header R buf frames)
              (object_block read_payload_length)) (object_block read_payload_mask)
            = OGo R1 buf1 frames1"
    with 3 have "well_formed R1 \<and> frames_retired R1 frames1"
      by (simp add: outcome_ok_OGo)
    then show "outcome_ok R1 (object_read_payload R1 buf1 frames1)"
      by (simp add: object_read_payload_ok)
  qed
qed

lemma object_parse_loop_ok:
  "well_formed R \<Longrightarrow> frames_retired R frames
     \<Longrightarrow> result_ok R (object_parse_loop R buf frames)"
proof (induction R buf frames rule: object_parse_loop.induct)
  case (1 R buf frames)
  from object_loop_body_ok [OF "1.prems"]
  have ok: "outcome_ok R (object_loop_body R buf frames)" .
  show ?case
  proof (cases "object_loop_body R buf frames")
    case (ORaise e R')
    with ok show ?thesis
      by (simp add: object_parse_loop.simps [of R] result_ok_def outcome_ok_def)
  next
    case (OBreak R' rest frames')
    with ok show ?thesis
      by (simp add: object_parse_loop.simps [of R] result_ok_def outcome_ok_def)
  next
    case (OGo R' rest frames')
    with ok have w: "well_formed R'" and k: "keeps R R'" and f: "frames_retired R' frames'"
      by (simp_all add: outcome_ok_def)
    from "1.IH" [OF OGo w f] have "result_ok R' (object_parse_loop R' rest frames')" .
    with k have "result_ok R (object_parse_loop R' rest frames')"
      by (auto simp add: result_ok_def split: sum.splits prod.splits intro: keeps_trans)
    with OGo show ?thesis
      by (simp add: object_parse_loop.simps [of R])
  qed
qed

lemma sum_ok_trans:
  assumes "keeps R R1" and "sum_ok R1 x"
  shows "sum_ok R x"
  using assms by (auto simp add: sum_ok_def split: sum.splits prod.splits intro: keeps_trans)

lemma object_accumulate_partial_ok:
  assumes "well_formed R"
  shows "sum_ok R (object_accumulate_partial R opc payload)"
  using assms
  by (auto simp add: object_accumulate_partial_def Let_def sum_ok_def well_formed_def keeps_def
        retired_def bytearray_extend_def)

lemma well_formed_opcode:
  "well_formed (R\<lparr>base := r\<rparr>) = well_formed R"
  by (simp add: well_formed_def retired_def)

lemma well_formed_clear:
  "well_formed R \<Longrightarrow>
     well_formed (R\<lparr>heap := (heap R)\<lparr>store := (store (heap R))(partial_ref R := [])\<rparr>\<rparr>)"
  by (simp add: well_formed_def retired_def)

lemma keeps_clear:
  "keeps R (R\<lparr>heap := (heap R)\<lparr>store := (store (heap R))(partial_ref R := [])\<rparr>\<rparr>)"
  by (simp add: keeps_def retired_def)

lemma well_formed_by_value:
  "well_formed R \<Longrightarrow> well_formed (R\<lparr>base := r, delivered := delivered R @ [ByValue m]\<rparr>)"
  by (simp add: well_formed_def retired_def)

lemma keeps_by_value:
  "keeps R (R\<lparr>base := r, delivered := ms\<rparr>)"
  by (simp add: keeps_def retired_def)

lemma finish_tail_ok:
  assumes "well_formed R1"
  shows "sum_ok R1
     (case decompress_payload Z (base R1) assembled_payload compr of
        Inl (e, r2) \<Rightarrow> Inl (e, R1\<lparr>base := r2\<rparr>)
      | Inr (r2, payload_merged) \<Rightarrow>
          if opc = Some OP_CODE_TEXT then
            case utf8_decode payload_merged of
              None \<Rightarrow> Inl (WebSocketError INVALID_TEXT InvalidUTF8Text, R1\<lparr>base := r2\<rparr>)
            | Some text \<Rightarrow>
                Inr (R1\<lparr>base := r2,
                        delivered := delivered R1 @ [ByValue (WSMessageText text [])]\<rparr>)
          else
            Inr (R1\<lparr>base := r2,
                    delivered := delivered R1 @ [ByValue (WSMessageBinary payload_merged [])]\<rparr>))"
proof (cases "decompress_payload Z (base R1) assembled_payload compr")
  case (Inl x)
  then show ?thesis
    using assms
    by (cases x) (simp add: sum_ok_def well_formed_base keeps_base keeps_refl)
next
  case (Inr y)
  obtain r2 payload_merged where y: "y = (r2, payload_merged)" by (cases y) auto
  show ?thesis
    using assms
    by (simp add: Inr y sum_ok_def well_formed_base well_formed_by_value keeps_by_value
          keeps_base keeps_refl split: option.splits)
qed

lemma object_finish_message_ok:
  assumes "well_formed R"
  shows "sum_ok R (object_finish_message Z R has_partial opc payload compr)"
proof (cases has_partial)
  case True
  let ?R1 = "R\<lparr>heap := (heap R)\<lparr>store := (store (heap R))(partial_ref R := [])\<rparr>\<rparr>"
  have w1: "well_formed ?R1" using assms by (rule well_formed_clear)
  have k1: "keeps R ?R1" by (rule keeps_clear)
  have e: "sum_ok ?R1 (Inl (e, ?R1))" for e
    using w1 by (simp add: sum_ok_def keeps_refl)
  have "sum_ok ?R1 (object_finish_message Z R has_partial opc payload compr)"
    unfolding object_finish_message_def Let_def
    using finish_tail_ok [OF w1] e
    by (simp add: True)
  with k1 show ?thesis by (rule sum_ok_trans)
next
  case False
  have e: "sum_ok R (Inl (e, R))" for e
    using assms by (simp add: sum_ok_def keeps_refl)
  show ?thesis
    unfolding object_finish_message_def Let_def
    using finish_tail_ok [OF assms] e
    by (simp add: False)
qed

lemma object_close_frame_ok:
  assumes "well_formed R"
  shows "sum_ok R (object_close_frame R fin opc payload)"
proof -
  have *: "\<And>m. well_formed (R\<lparr>delivered := delivered R @ [ByValue m]\<rparr>)"
    using assms by (simp add: well_formed_def retired_def)
  have **: "\<And>ms. keeps R (R\<lparr>delivered := ms\<rparr>)"
    by (simp add: keeps_def retired_def)
  show ?thesis
    using assms
    by (simp add: object_close_frame_def Let_def sum_ok_def * ** keeps_refl
          split: option.splits)
qed

lemma object_handle_frame_ok:
  assumes "well_formed R" and "retired R (frame_ref f)"
  shows "sum_ok R (object_handle_frame Z R f)"
proof -
  obtain fin opc payload compr where f: "f = (fin, opc, payload, compr)"
    by (cases f) auto
  from assms(2) have p: "retired R payload" by (simp add: f frame_ref_def)
  have w0: "well_formed (R\<lparr>base := (base R)\<lparr>opcode := None\<rparr>\<rparr>)"
    using assms(1) by (simp add: well_formed_opcode)
  have k0: "keeps R (R\<lparr>base := (base R)\<lparr>opcode := None\<rparr>\<rparr>)"
    by (simp add: keeps_base keeps_refl)
  have fin0: "\<And>hp o'. sum_ok R (object_finish_message Z (R\<lparr>base := (base R)\<lparr>opcode := None\<rparr>\<rparr>)
                   hp o' payload compr)"
    using k0 object_finish_message_ok [OF w0] by (rule sum_ok_trans)
  have err: "\<And>e. sum_ok R (Inl (e, R))"
    using assms(1) by (simp add: sum_ok_def keeps_refl)
  have ping: "well_formed (R\<lparr>delivered := delivered R @ [PingObject payload]\<rparr>)"
    using assms(1) p by (simp add: well_formed_def retired_def)
  have pong: "well_formed (R\<lparr>delivered := delivered R @ [PongObject payload]\<rparr>)"
    using assms(1) p by (simp add: well_formed_def retired_def)
  have k: "\<And>ms. keeps R (R\<lparr>delivered := ms\<rparr>)"
    by (simp add: keeps_def retired_def)
  have ok: "\<And>ms. well_formed (R\<lparr>delivered := ms\<rparr>) \<Longrightarrow> sum_ok R (Inr (R\<lparr>delivered := ms\<rparr>))"
    by (simp add: sum_ok_def k)
  show ?thesis
    unfolding f object_handle_frame.simps Let_def
    by (simp add: object_accumulate_partial_ok [OF assms(1)]
          object_finish_message_ok [OF assms(1)] object_close_frame_ok [OF assms(1)]
          fin0 err ok ping pong)
qed

lemma object_handle_frames_ok:
  "well_formed R \<Longrightarrow> frames_retired R frames \<Longrightarrow> sum_ok R (object_handle_frames Z R frames)"
proof (induction frames arbitrary: R)
  case Nil
  then show ?case by (simp add: sum_ok_def keeps_refl)
next
  case (Cons f frames)
  from Cons.prems have r: "retired R (frame_ref f)" and rs: "frames_retired R frames"
    by (simp_all add: frames_retired_def)
  from object_handle_frame_ok [OF Cons.prems(1) r]
  have ok: "sum_ok R (object_handle_frame Z R f)" .
  show ?case
  proof (cases "object_handle_frame Z R f")
    case (Inl x)
    with ok show ?thesis by simp
  next
    case (Inr R')
    with ok have w: "well_formed R'" and k: "keeps R R'" by (simp_all add: sum_ok_def)
    from Cons.IH [OF w frames_retired_keeps [OF k rs]]
    have "sum_ok R' (object_handle_frames Z R' frames)" .
    with k have "sum_ok R (object_handle_frames Z R' frames)" by (rule sum_ok_trans)
    with Inr show ?thesis by simp
  qed
qed

lemma object_parse_frame_ok:
  assumes "well_formed R"
  shows "parsed_ok R (object_parse_frame R data)"
proof -
  let ?R = "R\<lparr>base := (base R)\<lparr>tail := []\<rparr>\<rparr>"
  have w: "well_formed ?R" using assms by (simp add: well_formed_opcode)
  have k: "keeps R ?R" by (simp add: keeps_base keeps_refl)
  have "result_ok ?R (object_parse_loop ?R (tail (base R) @ data) [])"
    using w by (rule object_parse_loop_ok) (simp add: frames_retired_def)
  then have "parsed_ok ?R (object_parse_frame R data)"
    by (auto simp add: result_ok_def parsed_ok_def object_parse_frame_def well_formed_opcode
          keeps_base frames_retired_base split: sum.splits prod.splits)
  with k show ?thesis
    by (auto simp add: parsed_ok_def split: sum.splits prod.splits intro: keeps_trans)
qed

lemma object_u_feed_data_ok:
  assumes "well_formed R"
  shows "sum_ok R (object_u_feed_data Z R data)"
proof (cases "object_parse_frame R data")
  case (Inl x)
  with object_parse_frame_ok [OF assms, of data] show ?thesis
    by (auto simp add: object_u_feed_data_def parsed_ok_def sum_ok_def split: prod.splits)
next
  case (Inr y)
  obtain R' frames where y: "y = (R', frames)" by (cases y) auto
  with Inr object_parse_frame_ok [OF assms, of data]
  have w: "well_formed R'" and k: "keeps R R'" and f: "frames_retired R' frames"
    by (simp_all add: parsed_ok_def)
  from k object_handle_frames_ok [OF w f] have "sum_ok R (object_handle_frames Z R' frames)"
    by (rule sum_ok_trans)
  with Inr y show ?thesis by (simp add: object_u_feed_data_def)
qed

lemma object_feed_data_ok:
  assumes "well_formed R"
  shows "well_formed (fst (object_feed_data Z R data))
         \<and> keeps R (fst (object_feed_data Z R data))"
  using assms object_u_feed_data_ok [OF assms, of Z data]
  by (auto simp add: object_feed_data_def sum_ok_def well_formed_opcode keeps_base keeps_refl
        split: sum.splits prod.splits)

lemma object_calls_ok:
  "well_formed R \<Longrightarrow> well_formed (object_calls Z R calls) \<and> keeps R (object_calls Z R calls)"
proof (induction calls arbitrary: R)
  case Nil
  then show ?case by (simp add: keeps_refl)
next
  case (Cons c calls)
  show ?case
  proof (cases c)
    case (FeedData data)
    let ?R = "fst (object_feed_data Z R data)"
    from object_feed_data_ok [OF Cons.prems] have w: "well_formed ?R" and k: "keeps R ?R"
      by simp_all
    from Cons.IH [OF w] k show ?thesis
      by (auto simp add: FeedData intro: keeps_trans)
  next
    case (ParseFrame data)
    let ?R = "case object_parse_frame R data of Inl (e, R') \<Rightarrow> R' | Inr (R', frames) \<Rightarrow> R'"
    from object_parse_frame_ok [OF Cons.prems, of data]
    have w: "well_formed ?R" and k: "keeps R ?R"
      by (auto simp add: parsed_ok_def split: sum.splits prod.splits)
    from Cons.IH [OF w] k show ?thesis
      by (auto simp add: ParseFrame intro: keeps_trans)
  qed
qed

lemma well_formed_object_init: "well_formed (object_init q m c)"
  by (simp add: well_formed_def object_init_def)

lemma object_read_payload_emits:
  assumes "state (base R) = READ_PAYLOAD"
  shows "case object_read_payload R buf frames of
           OGo R1 rest frames1 \<Rightarrow>
             map frame_ref frames1 = map frame_ref frames @ [frame_payload_ref R]
             \<and> frame_payload_ref R1 = next_addr (heap R)
             \<and> store (heap R1) (frame_payload_ref R1) = []
         | _ \<Rightarrow> True"
  using assms
  by (simp add: object_read_payload_def Let_def new_bytearray_def bytearray_extend_def
        frame_ref_def)

text \<open>
  Claim C10. A frame emitted by \<open>parse_frame\<close> owns its payload object. When the payload
  block completes a frame, the tuple appended to the list holds the object that
  \<open>_frame_payload\<close> referred to, and \<open>_frame_payload\<close> then refers to a newly allocated,
  empty bytearray. For a well-formed reader (every reachable one is: the new reader is,
  and every call keeps it so), each frame returned by \<open>parse_frame\<close> has a retired
  payload object; after any sequence of further calls of \<open>feed_data\<close> and \<open>parse_frame\<close>
  the reader is well formed, every object a delivered message refers to is retired, and
  an object that was retired before the calls is still retired and holds the same
  bytes.
\<close>

theorem C10_payload_ownership:
  assumes "well_formed R"
  shows "(state (base R) = READ_PAYLOAD \<longrightarrow>
            (case object_read_payload R buf frames of
               OGo R1 rest frames1 \<Rightarrow>
                 map frame_ref frames1 = map frame_ref frames @ [frame_payload_ref R]
                 \<and> frame_payload_ref R1 = next_addr (heap R)
                 \<and> store (heap R1) (frame_payload_ref R1) = []
             | _ \<Rightarrow> True))
       \<and> (case object_parse_frame R data of
             Inr (R2, emitted) \<Rightarrow> \<forall>f \<in> set emitted. retired R2 (frame_ref f)
           | Inl _ \<Rightarrow> True)
       \<and> well_formed (object_calls Z R calls)
       \<and> (\<forall>m \<in> set (delivered (object_calls Z R calls)).
            \<forall>a \<in> message_refs m. retired (object_calls Z R calls) a)
       \<and> (retired R a \<longrightarrow>
            retired (object_calls Z R calls) a
            \<and> store (heap (object_calls Z R calls)) a = store (heap R) a)"
proof -
  have 1: "state (base R) = READ_PAYLOAD \<longrightarrow>
            (case object_read_payload R buf frames of
               OGo R1 rest frames1 \<Rightarrow>
                 map frame_ref frames1 = map frame_ref frames @ [frame_payload_ref R]
                 \<and> frame_payload_ref R1 = next_addr (heap R)
                 \<and> store (heap R1) (frame_payload_ref R1) = []
             | _ \<Rightarrow> True)"
    using object_read_payload_emits [where R = R and buf = buf and frames = frames] by blast
  have 2: "case object_parse_frame R data of
             Inr (R2, emitted) \<Rightarrow> \<forall>f \<in> set emitted. retired R2 (frame_ref f)
           | Inl _ \<Rightarrow> True"
    using object_parse_frame_ok [OF assms, of data]
    by (auto simp add: parsed_ok_def frames_retired_def split: sum.splits)
  from object_calls_ok [OF assms, of Z calls]
  have 3: "well_formed (object_calls Z R calls)" and k: "keeps R (object_calls Z R calls)"
    by simp_all
  from 3 have 4: "\<forall>m \<in> set (delivered (object_calls Z R calls)).
            \<forall>a \<in> message_refs m. retired (object_calls Z R calls) a"
    by (simp add: well_formed_def)
  from k have 5: "retired R a \<longrightarrow>
            retired (object_calls Z R calls) a
            \<and> store (heap (object_calls Z R calls)) a = store (heap R) a"
    by (simp add: keeps_def)
  from 1 2 3 4 5 show ?thesis by (intro conjI)
qed

theorem C10_payload_ownership_witness:
  "well_formed example_object_reader
   \<and> state (base example_object_reader) = READ_PAYLOAD
   \<and> delivered example_object_reader = [PingObject 1]
   \<and> retired example_object_reader 1
   \<and> store (heap example_object_reader) 1 = [0x41]
   \<and> (case object_read_payload example_object_reader [0x42] [] of
         OGo R1 rest frames1 \<Rightarrow>
           map frame_ref frames1 = [frame_payload_ref example_object_reader]
           \<and> frame_payload_ref R1 = next_addr (heap example_object_reader)
           \<and> store (heap R1) (frame_payload_ref R1) = []
       | _ \<Rightarrow> False)
   \<and> (case object_parse_frame example_object_reader [0x42] of
         Inr (R2, emitted) \<Rightarrow> map frame_ref emitted = [2] \<and> retired R2 2
       | Inl _ \<Rightarrow> False)
   \<and> delivered (object_calls example_decompressor example_object_reader
        [FeedData [0x42, 0x82, 0x01, 0x43], ParseFrame [0x89, 0x00]])
       = [PingObject 1, PongObject 2, ByValue (WSMessageBinary [0x43] [])]
   \<and> retired (object_calls example_decompressor example_object_reader
        [FeedData [0x42, 0x82, 0x01, 0x43], ParseFrame [0x89, 0x00]]) 1
   \<and> retired (object_calls example_decompressor example_object_reader
        [FeedData [0x42, 0x82, 0x01, 0x43], ParseFrame [0x89, 0x00]]) 2
   \<and> store (heap (object_calls example_decompressor example_object_reader
        [FeedData [0x42, 0x82, 0x01, 0x43], ParseFrame [0x89, 0x00]])) 1 = [0x41]"
proof -
  let ?R = "example_object_reader"
  let ?calls = "[FeedData [0x42, 0x82, 0x01, 0x43], ParseFrame [0x89, 0x00]]"
  let ?R' = "object_calls example_decompressor ?R ?calls"
  have w: "well_formed ?R" by code_simp
  have s: "state (base ?R) = READ_PAYLOAD" by code_simp
  have d: "delivered ?R = [PingObject 1]" by code_simp
  have r: "retired ?R 1" by code_simp
  have v: "store (heap ?R) 1 = [0x41]" by code_simp
  have go: "case object_read_payload ?R [0x42] [] of OGo R1 rest frames1 \<Rightarrow> True | _ \<Rightarrow> False"
    by code_simp
  have fr: "case object_parse_frame ?R [0x42] of
              Inr (R2, emitted) \<Rightarrow> map frame_ref emitted = [2] | Inl _ \<Rightarrow> False"
    by code_simp
  have d': "delivered ?R'
       = [PingObject 1, PongObject 2, ByValue (WSMessageBinary [0x43] [])]"
    by code_simp
  note C = C10_payload_ownership [OF w, where buf = "[0x42]" and frames = "[]"
      and data = "[0x42]" and Z = example_decompressor and calls = ?calls and a = 1]
  from C s have "case object_read_payload ?R [0x42] [] of
         OGo R1 rest frames1 \<Rightarrow>
           map frame_ref frames1 = map frame_ref [] @ [frame_payload_ref ?R]
           \<and> frame_payload_ref R1 = next_addr (heap ?R)
           \<and> store (heap R1) (frame_payload_ref R1) = []
       | _ \<Rightarrow> True"
    by (simp only: simp_thms)
  with go
  have 1: "case object_read_payload ?R [0x42] [] of
         OGo R1 rest frames1 \<Rightarrow>
           map frame_ref frames1 = [frame_payload_ref ?R]
           \<and> frame_payload_ref R1 = next_addr (heap ?R)
           \<and> store (heap R1) (frame_payload_ref R1) = []
       | _ \<Rightarrow> False"
    by (cases "object_read_payload ?R [0x42] []") auto
  from C have "case object_parse_frame ?R [0x42] of
             Inr (R2, emitted) \<Rightarrow> \<forall>f \<in> set emitted. retired R2 (frame_ref f)
           | Inl _ \<Rightarrow> True"
    by (simp only: simp_thms)
  with fr
  have 2: "case object_parse_frame ?R [0x42] of
         Inr (R2, emitted) \<Rightarrow> map frame_ref emitted = [2] \<and> retired R2 2
       | Inl _ \<Rightarrow> False"
    by (cases "object_parse_frame ?R [0x42]") (auto split: prod.splits)
  from C r v have 3: "retired ?R' 1" and 4: "store (heap ?R') 1 = [0x41]"
    by simp_all
  from C d' have 5: "retired ?R' 2"
    by simp
  from w s d r v 1 2 d' 3 5 4 show ?thesis by (intro conjI)
qed

end
